theory Spec2Isabelle
  imports Main "HOL-Library.Sublist"
begin

section \<open>Strings\<close>

text \<open>
  A JavaScript string is modelled as a \<^typ>\<open>string\<close>, a list of code units below
  256 (the Latin-1 range). The source's string operations are written out on that range:
  \<^verbatim>\<open>toLowerCase\<close> acts on the letters A-Z and on the accented capitals
  U+00C0..U+00DE (U+00D7, the multiplication sign, apart) by adding 32 to the code unit.
\<close>

definition sq :: char where
  "sq = CHR 0x27"

definition dq :: char where
  "dq = CHR 0x22"

definition toLowerCase_char :: "char \<Rightarrow> char" where
  "toLowerCase_char c =
     (let n = (of_char c :: nat)
      in if (65 \<le> n \<and> n \<le> 90) \<or> (192 \<le> n \<and> n \<le> 222 \<and> n \<noteq> 215)
         then char_of (n + 32) else c)"

definition toLowerCase :: "string \<Rightarrow> string" where
  "toLowerCase s = map toLowerCase_char s"

text \<open>\<^verbatim>\<open>s.startsWith(t)\<close> and \<^verbatim>\<open>s.includes(t)\<close>.\<close>

definition startsWith :: "string \<Rightarrow> string \<Rightarrow> bool" where
  "startsWith s t = (take (length t) s = t)"

fun includes_str :: "string \<Rightarrow> string \<Rightarrow> bool" where
  "includes_str [] t = (t = [])"
| "includes_str (c # cs) t = (startsWith (c # cs) t \<or> includes_str cs t)"

text \<open>\<^verbatim>\<open>s.replace(/'/g, "''")\<close>: every single quote becomes two, left to right.\<close>

definition replace_quotes :: "string \<Rightarrow> string" where
  "replace_quotes s = concat (map (\<lambda>c. if c = sq then [sq, sq] else [c]) s)"

text \<open>\<^verbatim>\<open>xs.join(sep)\<close>.\<close>

fun join :: "string \<Rightarrow> string list \<Rightarrow> string" where
  "join sep [] = []"
| "join sep [x] = x"
| "join sep (x # y # ys) = x @ sep @ join sep (y # ys)"

text \<open>
  An optional string field is \<^typ>\<open>string option\<close>; in a condition JavaScript takes
  \<^verbatim>\<open>undefined\<close> and the empty string for false.
\<close>

definition truthy :: "string option \<Rightarrow> bool" where
  "truthy v = (case v of None \<Rightarrow> False | Some s \<Rightarrow> s \<noteq> [])"

section \<open>Data model\<close>

text \<open>
  \<^verbatim>\<open>QueryParams\<close> of api.ts, with the fields the search planner sets. A field that
  the object literal does not mention is \<^const>\<open>None\<close>.
\<close>

record QueryParams =
  top_param :: "int option"
  select_param :: "string option"
  orderby_param :: "string option"
  filter_param :: "string option"
  search_param :: "string option"
  count_param :: "string option"

definition no_params :: QueryParams where
  "no_params = \<lparr>top_param = None, select_param = None, orderby_param = None,
     filter_param = None, search_param = None, count_param = None\<rparr>"

record SearchTerms =
  st_query :: "string option"
  st_from :: "string option"
  st_to :: "string option"
  st_subject :: "string option"

record FilterTerms =
  hasAttachments :: "bool option"
  unreadOnly :: "bool option"

text \<open>The rejections of \<^verbatim>\<open>callGraphAPI\<close> (api.ts, lines 195 to 213).\<close>

datatype api_error =
    ParseError
  | UNAUTHORIZED
  | ApiFailed int string
  | NetworkError string

text \<open>
  What \<^verbatim>\<open>callGraphAPIPaginated\<close> resolves to: the items and their number
  (\<^verbatim>\<open>"@odata.count"\<close>).
\<close>

record 'e GraphAPIResponse =
  resp_value :: "'e list"
  odata_count :: "nat option"

record SearchInfo =
  strategies :: "string list"
  failed :: "bool option"

record 'e SearchResponse =
  found_value :: "'e list"
  found_count :: "nat option"
  searchInfo :: SearchInfo

text \<open>One call of \<^verbatim>\<open>callGraphAPIPaginated(accessToken, "GET", apiPath, queryParams, maxCount, extraHeaders)\<close>.\<close>

record request =
  req_accessToken :: string
  req_apiPath :: string
  req_queryParams :: QueryParams
  req_maxCount :: int
  req_extraHeaders :: "(string \<times> string) list"

definition EMAIL_SELECT_FIELDS :: string where
  "EMAIL_SELECT_FIELDS =
     ''id,subject,from,toRecipients,ccRecipients,receivedDateTime,bodyPreview,hasAttachments,importance,isRead''"

section \<open>Query parameter builder\<close>

text \<open>
  Both functions update \<^verbatim>\<open>params\<close> in place; the model returns the updated
  parameters.
\<close>

definition filterConditions :: "FilterTerms \<Rightarrow> string list" where
  "filterConditions filterTerms =
     (if hasAttachments filterTerms = Some True then [''hasAttachments eq true''] else []) @
     (if unreadOnly filterTerms = Some True then [''isRead eq false''] else [])"

definition addBooleanFilters :: "QueryParams \<Rightarrow> FilterTerms \<Rightarrow> QueryParams" where
  "addBooleanFilters params filterTerms =
     (if length (filterConditions filterTerms) > 0
      then params\<lparr>filter_param := Some (join '' and '' (filterConditions filterTerms))\<rparr>
      else params)"

definition addBooleanFiltersToFilter :: "QueryParams \<Rightarrow> FilterTerms \<Rightarrow> QueryParams" where
  "addBooleanFiltersToFilter params filterTerms =
     (if length (filterConditions filterTerms) > 0
      then (case filter_param params of
              Some f \<Rightarrow>
                if f \<noteq> []
                then params\<lparr>filter_param :=
                       Some (''('' @ f @ '') and '' @ join '' and '' (filterConditions filterTerms))\<rparr>
                else params\<lparr>filter_param := Some (join '' and '' (filterConditions filterTerms))\<rparr>
            | None \<Rightarrow>
                params\<lparr>filter_param := Some (join '' and '' (filterConditions filterTerms))\<rparr>)
      else params)"

section \<open>Progressive search planner\<close>

text \<open>
  The paginated fetcher is the planner's collaborator. A fetcher stands for
  \<^verbatim>\<open>callGraphAPIPaginated\<close> of api.ts with the HTTP client and the remote service
  below it: it follows the continuation links, resolves to the items collected (its
  \<^verbatim>\<open>value\<close> is always an array) with their number, and passes on unchanged any
  rejection of \<^verbatim>\<open>callGraphAPI\<close>. Every call is taken to settle, with a response or
  with a rejection, and it may change the state \<open>'w\<close> of the remote side. Numbers are
  integers.

  The planner's own state is the attempt log \<^verbatim>\<open>searchAttempts\<close>; the model keeps
  beside it the trace of the calls made so far, each with the log as it stood when the
  call was issued (so that the last tag of that log names the strategy that made the call)
  and with what the call settled to.
\<close>

type_synonym ('e, 'w) fetcher =
  "request \<Rightarrow> 'w \<Rightarrow> (api_error + 'e GraphAPIResponse) \<times> 'w"

record 'e call =
  call_request :: request
  call_log :: "string list"
  call_outcome :: "api_error + 'e GraphAPIResponse"

record ('e, 'w) pstate =
  searchAttempts :: "string list"
  trace :: "'e call list"
  world :: 'w

definition push :: "string \<Rightarrow> ('e, 'w) pstate \<Rightarrow> ('e, 'w) pstate" where
  "push tag s = s\<lparr>searchAttempts := searchAttempts s @ [tag]\<rparr>"

definition callGraphAPIPaginated ::
  "('e, 'w) fetcher \<Rightarrow> request \<Rightarrow> ('e, 'w) pstate
     \<Rightarrow> (api_error + 'e GraphAPIResponse) \<times> ('e, 'w) pstate" where
  "callGraphAPIPaginated api req s =
     (case api req (world s) of
        (out, w') \<Rightarrow>
          (out, s\<lparr>trace := trace s @
                   [\<lparr>call_request = req, call_log = searchAttempts s, call_outcome = out\<rparr>],
                 world := w'\<rparr>))"

text \<open>\<^verbatim>\<open>{ ...response, _searchInfo: { strategies: searchAttempts } }\<close>\<close>

definition with_searchInfo :: "'e GraphAPIResponse \<Rightarrow> string list \<Rightarrow> 'e SearchResponse" where
  "with_searchInfo response attempts =
     \<lparr>found_value = resp_value response, found_count = odata_count response,
      searchInfo = \<lparr>strategies = attempts, failed = None\<rparr>\<rparr>"

text \<open>\<^verbatim>\<open>{ value: [], _searchInfo: { strategies: searchAttempts, failed: true } }\<close>\<close>

definition all_failed :: "string list \<Rightarrow> 'e SearchResponse" where
  "all_failed attempts =
     \<lparr>found_value = [], found_count = None,
      searchInfo = \<lparr>strategies = attempts, failed = Some True\<rparr>\<rparr>"

text \<open>
  Each strategy is a step on the planner's state: \<^const>\<open>Some\<close> is the
  \<^verbatim>\<open>return\<close> inside its \<^verbatim>\<open>try\<close> block, \<^const>\<open>None\<close> is falling through to
  the next strategy. The \<^verbatim>\<open>catch\<close> blocks have no parameter and no condition, so a
  rejection of any kind falls through.
\<close>

definition strategy1 ::
  "('e, 'w) fetcher \<Rightarrow> string \<Rightarrow> SearchTerms \<Rightarrow> FilterTerms \<Rightarrow> int
     \<Rightarrow> ('e, 'w) pstate \<Rightarrow> 'e SearchResponse option \<times> ('e, 'w) pstate" where
  "strategy1 api accessToken searchTerms filterTerms maxCount s =
     (case st_from searchTerms of
        None \<Rightarrow> (None, s)
      | Some f \<Rightarrow>
          if f \<noteq> [] \<and> includes_str f ''@'' then
            (let escapedFrom = toLowerCase (replace_quotes f);
                 s1 = push ''filter-from-exact'' s;
                 filterParams = addBooleanFiltersToFilter
                   (no_params\<lparr>top_param := Some (min 50 maxCount),
                      select_param := Some EMAIL_SELECT_FIELDS,
                      filter_param :=
                        Some (''sender/emailAddress/address eq '' @ [sq] @ escapedFrom @ [sq]),
                      count_param := Some ''true''\<rparr>) filterTerms
             in case callGraphAPIPaginated api
                       \<lparr>req_accessToken = accessToken, req_apiPath = ''me/messages'',
                        req_queryParams = filterParams, req_maxCount = maxCount,
                        req_extraHeaders = [(''ConsistencyLevel'', ''eventual'')]\<rparr> s1 of
                  (Inr response, s2) \<Rightarrow>
                    if resp_value response \<noteq> []
                    then (Some (with_searchInfo response (searchAttempts s2)), s2)
                    else (None, s2)
                | (Inl e, s2) \<Rightarrow> (None, s2))
          else (None, s))"

definition strategy2 ::
  "('e, 'w) fetcher \<Rightarrow> string \<Rightarrow> string \<Rightarrow> SearchTerms \<Rightarrow> FilterTerms \<Rightarrow> int
     \<Rightarrow> ('e, 'w) pstate \<Rightarrow> 'e SearchResponse option \<times> ('e, 'w) pstate" where
  "strategy2 api endpoint accessToken searchTerms filterTerms maxCount s =
     (case st_subject searchTerms of
        None \<Rightarrow> (None, s)
      | Some subj \<Rightarrow>
          if subj \<noteq> [] then
            (let escapedSubject = replace_quotes subj;
                 s1 = push ''filter-subject-startswith'' s;
                 filterParams = addBooleanFiltersToFilter
                   (no_params\<lparr>top_param := Some (min 50 maxCount),
                      select_param := Some EMAIL_SELECT_FIELDS,
                      orderby_param := Some ''receivedDateTime desc'',
                      filter_param :=
                        Some (''startswith(subject,'' @ [sq] @ escapedSubject @ [sq] @ '')'')\<rparr>)
                   filterTerms
             in case callGraphAPIPaginated api
                       \<lparr>req_accessToken = accessToken, req_apiPath = endpoint,
                        req_queryParams = filterParams, req_maxCount = maxCount,
                        req_extraHeaders = []\<rparr> s1 of
                  (Inr response, s2) \<Rightarrow>
                    if resp_value response \<noteq> []
                    then (Some (with_searchInfo response (searchAttempts s2)), s2)
                    else (None, s2)
                | (Inl e, s2) \<Rightarrow> (None, s2))
          else (None, s))"

text \<open>The \<^verbatim>\<open>kqlTerms\<close> of strategy 3, in the order they are pushed.\<close>

definition kqlTerms :: "SearchTerms \<Rightarrow> string list" where
  "kqlTerms searchTerms =
     (case st_query searchTerms of
        Some q \<Rightarrow> if q \<noteq> [] then [q] else [] | None \<Rightarrow> []) @
     (case st_subject searchTerms of
        Some v \<Rightarrow> if v \<noteq> [] then [''subject:'' @ [dq] @ v @ [dq]] else [] | None \<Rightarrow> []) @
     (case st_from searchTerms of
        Some v \<Rightarrow> if v \<noteq> [] then [''from:'' @ [dq] @ v @ [dq]] else [] | None \<Rightarrow> []) @
     (case st_to searchTerms of
        Some v \<Rightarrow> if v \<noteq> [] then [''to:'' @ [dq] @ v @ [dq]] else [] | None \<Rightarrow> [])"

definition strategy3 ::
  "('e, 'w) fetcher \<Rightarrow> string \<Rightarrow> string \<Rightarrow> SearchTerms \<Rightarrow> FilterTerms \<Rightarrow> int
     \<Rightarrow> ('e, 'w) pstate \<Rightarrow> 'e SearchResponse option \<times> ('e, 'w) pstate" where
  "strategy3 api endpoint accessToken searchTerms filterTerms maxCount s =
     (if length (kqlTerms searchTerms) > 0 then
        (let s1 = push ''kql-combined-search'' s;
             params = addBooleanFilters
               (no_params\<lparr>top_param := Some (min 50 maxCount),
                  select_param := Some EMAIL_SELECT_FIELDS,
                  orderby_param := Some ''receivedDateTime desc'',
                  search_param := Some (join '' '' (kqlTerms searchTerms))\<rparr>) filterTerms
         in case callGraphAPIPaginated api
                   \<lparr>req_accessToken = accessToken, req_apiPath = endpoint,
                    req_queryParams = params, req_maxCount = maxCount,
                    req_extraHeaders = []\<rparr> s1 of
              (Inr response, s2) \<Rightarrow>
                if resp_value response \<noteq> []
                then (Some (with_searchInfo response (searchAttempts s2)), s2)
                else (None, s2)
            | (Inl e, s2) \<Rightarrow> (None, s2))
      else (None, s))"

text \<open>The keys of \<^verbatim>\<open>SearchTerms\<close> that strategy 4 walks through.\<close>

datatype term_key = Key_subject | Key_from | Key_to | Key_query

fun key_name :: "term_key \<Rightarrow> string" where
  "key_name Key_subject = ''subject''"
| "key_name Key_from = ''from''"
| "key_name Key_to = ''to''"
| "key_name Key_query = ''query''"

fun term_of :: "SearchTerms \<Rightarrow> term_key \<Rightarrow> string option" where
  "term_of searchTerms Key_subject = st_subject searchTerms"
| "term_of searchTerms Key_from = st_from searchTerms"
| "term_of searchTerms Key_to = st_to searchTerms"
| "term_of searchTerms Key_query = st_query searchTerms"

definition searchPriority :: "term_key list" where
  "searchPriority = [Key_subject, Key_from, Key_to, Key_query]"

text \<open>The body of the loop of strategy 4, for one key.\<close>

definition single_term ::
  "('e, 'w) fetcher \<Rightarrow> string \<Rightarrow> string \<Rightarrow> SearchTerms \<Rightarrow> FilterTerms \<Rightarrow> int \<Rightarrow> term_key
     \<Rightarrow> ('e, 'w) pstate \<Rightarrow> 'e SearchResponse option \<times> ('e, 'w) pstate" where
  "single_term api endpoint accessToken searchTerms filterTerms maxCount term s =
     (case term_of searchTerms term of
        None \<Rightarrow> (None, s)
      | Some v \<Rightarrow>
          if v \<noteq> [] then
            (let s1 = push (''kql-single-term-'' @ key_name term) s;
                 simplifiedParams =
                   no_params\<lparr>top_param := Some (min 50 maxCount),
                     select_param := Some EMAIL_SELECT_FIELDS,
                     orderby_param := Some ''receivedDateTime desc''\<rparr>;
                 simplifiedParams' = simplifiedParams\<lparr>search_param :=
                     (if term = Key_query then Some ([dq] @ v @ [dq])
                      else Some (key_name term @ '':'' @ [dq] @ v @ [dq]))\<rparr>;
                 simplifiedParams'' = addBooleanFilters simplifiedParams' filterTerms
             in case callGraphAPIPaginated api
                       \<lparr>req_accessToken = accessToken, req_apiPath = endpoint,
                        req_queryParams = simplifiedParams'', req_maxCount = maxCount,
                        req_extraHeaders = []\<rparr> s1 of
                  (Inr response, s2) \<Rightarrow>
                    if resp_value response \<noteq> []
                    then (Some (with_searchInfo response (searchAttempts s2)), s2)
                    else (None, s2)
                | (Inl e, s2) \<Rightarrow> (None, s2))
          else (None, s))"

fun strategy4 ::
  "('e, 'w) fetcher \<Rightarrow> string \<Rightarrow> string \<Rightarrow> SearchTerms \<Rightarrow> FilterTerms \<Rightarrow> int
     \<Rightarrow> term_key list \<Rightarrow> ('e, 'w) pstate \<Rightarrow> 'e SearchResponse option \<times> ('e, 'w) pstate" where
  "strategy4 api endpoint accessToken searchTerms filterTerms maxCount [] s = (None, s)"
| "strategy4 api endpoint accessToken searchTerms filterTerms maxCount (term # rest) s =
     (case single_term api endpoint accessToken searchTerms filterTerms maxCount term s of
        (Some found, s') \<Rightarrow> (Some found, s')
      | (None, s') \<Rightarrow>
          strategy4 api endpoint accessToken searchTerms filterTerms maxCount rest s')"

text \<open>Strategy 5 returns whatever its call resolves to, also an empty list.\<close>

definition strategy5 ::
  "('e, 'w) fetcher \<Rightarrow> string \<Rightarrow> string \<Rightarrow> FilterTerms \<Rightarrow> int
     \<Rightarrow> ('e, 'w) pstate \<Rightarrow> 'e SearchResponse option \<times> ('e, 'w) pstate" where
  "strategy5 api endpoint accessToken filterTerms maxCount s =
     (if hasAttachments filterTerms = Some True \<or> unreadOnly filterTerms = Some True then
        (let s1 = push ''boolean-filters-only'' s;
             filterOnlyParams = addBooleanFilters
               (no_params\<lparr>top_param := Some (min 50 maxCount),
                  select_param := Some EMAIL_SELECT_FIELDS,
                  orderby_param := Some ''receivedDateTime desc''\<rparr>) filterTerms
         in case callGraphAPIPaginated api
                   \<lparr>req_accessToken = accessToken, req_apiPath = endpoint,
                    req_queryParams = filterOnlyParams, req_maxCount = maxCount,
                    req_extraHeaders = []\<rparr> s1 of
              (Inr response, s2) \<Rightarrow> (Some (with_searchInfo response (searchAttempts s2)), s2)
            | (Inl e, s2) \<Rightarrow> (None, s2))
      else (None, s))"

text \<open>
  The planner. It is an \<^verbatim>\<open>async\<close> function, so its result is a rejection or a
  response; the final planner state (log, trace, remote state) is returned beside it.
\<close>

definition progressiveSearch ::
  "('e, 'w) fetcher \<Rightarrow> string \<Rightarrow> string \<Rightarrow> SearchTerms \<Rightarrow> FilterTerms \<Rightarrow> int \<Rightarrow> 'w
     \<Rightarrow> (api_error + 'e SearchResponse) \<times> ('e, 'w) pstate" where
  "progressiveSearch api endpoint accessToken searchTerms filterTerms maxCount w =
     (case strategy1 api accessToken searchTerms filterTerms maxCount
             \<lparr>searchAttempts = [], trace = [], world = w\<rparr> of
        (Some found, s) \<Rightarrow> (Inr found, s)
      | (None, s1) \<Rightarrow>
     (case strategy2 api endpoint accessToken searchTerms filterTerms maxCount s1 of
        (Some found, s) \<Rightarrow> (Inr found, s)
      | (None, s2) \<Rightarrow>
     (case strategy3 api endpoint accessToken searchTerms filterTerms maxCount s2 of
        (Some found, s) \<Rightarrow> (Inr found, s)
      | (None, s3) \<Rightarrow>
     (case strategy4 api endpoint accessToken searchTerms filterTerms maxCount searchPriority s3 of
        (Some found, s) \<Rightarrow> (Inr found, s)
      | (None, s4) \<Rightarrow>
     (case strategy5 api endpoint accessToken filterTerms maxCount s4 of
        (Some found, s) \<Rightarrow> (Inr found, s)
      | (None, s5) \<Rightarrow> (Inr (all_failed (searchAttempts s5)), s5))))))"

section \<open>Folder resolver\<close>

text \<open>
  \<^verbatim>\<open>WELL_KNOWN_FOLDERS\<close> of types.ts is an object literal, read with
  \<^verbatim>\<open>WELL_KNOWN_FOLDERS[key]\<close>. Reading a property of a JavaScript object looks at
  the object's own properties and then at those it inherits from
  \<^verbatim>\<open>Object.prototype\<close>, so the value read is a string, an inherited member (a
  function or an object, which a condition takes for true) or \<^verbatim>\<open>undefined\<close>.
\<close>

datatype js_value = JUndefined | JString string | JInherited string

definition WELL_KNOWN_FOLDERS :: "(string \<times> string) list" where
  "WELL_KNOWN_FOLDERS =
     [(''inbox'', ''me/mailFolders/inbox/messages''),
      (''drafts'', ''me/mailFolders/drafts/messages''),
      (''sent'', ''me/mailFolders/sentItems/messages''),
      (''deleted'', ''me/mailFolders/deletedItems/messages''),
      (''junk'', ''me/mailFolders/junkemail/messages''),
      (''archive'', ''me/mailFolders/archive/messages'')]"

definition Object_prototype :: "string list" where
  "Object_prototype =
     [''constructor'', ''__defineGetter__'', ''__defineSetter__'', ''hasOwnProperty'',
      ''__lookupGetter__'', ''__lookupSetter__'', ''isPrototypeOf'', ''propertyIsEnumerable'',
      ''toString'', ''valueOf'', ''__proto__'', ''toLocaleString'']"

definition get_property :: "(string \<times> string) list \<Rightarrow> string \<Rightarrow> js_value" where
  "get_property obj key =
     (case map_of obj key of
        Some v \<Rightarrow> JString v
      | None \<Rightarrow> if key \<in> set Object_prototype then JInherited key else JUndefined)"

fun js_truthy :: "js_value \<Rightarrow> bool" where
  "js_truthy JUndefined = False"
| "js_truthy (JString v) = (v \<noteq> [])"
| "js_truthy (JInherited k) = True"

record MailFolder =
  folder_id :: string
  displayName :: string
  childFolderCount :: int

text \<open>
  One call of \<^verbatim>\<open>callGraphAPI(accessToken, "GET", apiPath, null, queryParams)\<close> for a
  folder listing. It rejects, or resolves to a response whose \<^verbatim>\<open>value\<close> is a list
  of folders or is missing. The resolver's state is the list of the calls made and the
  state of the remote side; the child-folder queries are made in the order of their
  parents.
\<close>

record graph_request =
  gr_accessToken :: string
  gr_apiPath :: string
  gr_queryParams :: QueryParams

type_synonym 'w graph =
  "graph_request \<Rightarrow> 'w \<Rightarrow> (api_error + MailFolder list option) \<times> 'w"

record 'w rstate =
  calls :: "graph_request list"
  remote :: 'w

definition callGraphAPI ::
  "'w graph \<Rightarrow> graph_request \<Rightarrow> 'w rstate \<Rightarrow> (api_error + MailFolder list option) \<times> 'w rstate" where
  "callGraphAPI graph req s =
     (case graph req (remote s) of
        (out, w') \<Rightarrow> (out, \<lparr>calls = calls s @ [req], remote = w'\<rparr>))"

definition FOLDER_SELECT_FIELDS :: string where
  "FOLDER_SELECT_FIELDS =
     ''id,displayName,parentFolderId,childFolderCount,totalItemCount,unreadItemCount''"

fun childFolders ::
  "'w graph \<Rightarrow> string \<Rightarrow> MailFolder list \<Rightarrow> 'w rstate \<Rightarrow> MailFolder list list \<times> 'w rstate" where
  "childFolders graph accessToken [] s = ([], s)"
| "childFolders graph accessToken (folder # rest) s =
     (case callGraphAPI graph
             \<lparr>gr_accessToken = accessToken,
              gr_apiPath = ''me/mailFolders/'' @ folder_id folder @ ''/childFolders'',
              gr_queryParams = no_params\<lparr>select_param := Some FOLDER_SELECT_FIELDS\<rparr>\<rparr> s of
        (out, s1) \<Rightarrow>
          (case childFolders graph accessToken rest s1 of
             (others, s2) \<Rightarrow>
               ((case out of Inr (Some v) \<Rightarrow> v | Inr None \<Rightarrow> [] | Inl e \<Rightarrow> []) # others, s2)))"

definition getAllFolders ::
  "'w graph \<Rightarrow> string \<Rightarrow> 'w rstate \<Rightarrow> MailFolder list \<times> 'w rstate" where
  "getAllFolders graph accessToken s =
     (case callGraphAPI graph
             \<lparr>gr_accessToken = accessToken, gr_apiPath = ''me/mailFolders'',
              gr_queryParams = no_params\<lparr>top_param := Some 100,
                                 select_param := Some FOLDER_SELECT_FIELDS\<rparr>\<rparr> s of
        (Inl e, s1) \<Rightarrow> ([], s1)
      | (Inr None, s1) \<Rightarrow> ([], s1)
      | (Inr (Some v), s1) \<Rightarrow>
          (case childFolders graph accessToken (filter (\<lambda>f. childFolderCount f > 0) v) s1 of
             (kids, s2) \<Rightarrow> (v @ concat kids, s2)))"

text \<open>\<^verbatim>\<open>folders.find((f) => f.displayName.toLowerCase() === lowerName)\<close>\<close>

definition find_folder :: "string \<Rightarrow> MailFolder list \<Rightarrow> MailFolder option" where
  "find_folder lowerName folders =
     find (\<lambda>f. toLowerCase (displayName f) = lowerName) folders"

text \<open>The second \<^verbatim>\<open>try\<close> block of \<^verbatim>\<open>getFolderIdByName\<close>.\<close>

definition subfolder_search ::
  "'w graph \<Rightarrow> string \<Rightarrow> string \<Rightarrow> 'w rstate \<Rightarrow> string option \<times> 'w rstate" where
  "subfolder_search graph accessToken folderName s =
     (case getAllFolders graph accessToken s of
        (allFolders, s') \<Rightarrow>
          (case find_folder (toLowerCase folderName) allFolders of
             Some match \<Rightarrow> (Some (folder_id match), s')
           | None \<Rightarrow> (None, s')))"

definition getFolderIdByName ::
  "'w graph \<Rightarrow> string \<Rightarrow> string \<Rightarrow> 'w rstate \<Rightarrow> string option \<times> 'w rstate" where
  "getFolderIdByName graph accessToken folderName s =
     (case callGraphAPI graph
             \<lparr>gr_accessToken = accessToken, gr_apiPath = ''me/mailFolders'',
              gr_queryParams = no_params\<lparr>filter_param :=
                Some (''displayName eq '' @ [sq] @ folderName @ [sq])\<rparr>\<rparr> s of
        (Inl e, s1) \<Rightarrow> subfolder_search graph accessToken folderName s1
      | (Inr (Some (f # fs)), s1) \<Rightarrow> (Some (folder_id f), s1)
      | (Inr other, s1) \<Rightarrow>
          (case callGraphAPI graph
                  \<lparr>gr_accessToken = accessToken, gr_apiPath = ''me/mailFolders'',
                   gr_queryParams = no_params\<lparr>top_param := Some 100\<rparr>\<rparr> s1 of
             (Inl e, s2) \<Rightarrow> subfolder_search graph accessToken folderName s2
           | (Inr None, s2) \<Rightarrow> subfolder_search graph accessToken folderName s2
           | (Inr (Some v), s2) \<Rightarrow>
               (case find_folder (toLowerCase folderName) v of
                  Some matchingFolder \<Rightarrow> (Some (folder_id matchingFolder), s2)
                | None \<Rightarrow> subfolder_search graph accessToken folderName s2)))"

text \<open>What \<^verbatim>\<open>resolveFolderPath\<close> throws: \<^verbatim>\<open>new Error(message)\<close>.\<close>

datatype js_error = Error string

definition not_found_message :: "string \<Rightarrow> string" where
  "not_found_message folderName =
     ''Folder '' @ [dq] @ folderName @ [dq] @
     '' not found. Use list-folders to see available folders.''"

definition resolveFolderPath ::
  "'w graph \<Rightarrow> string \<Rightarrow> string option \<Rightarrow> 'w \<Rightarrow> (js_error + js_value) \<times> 'w rstate" where
  "resolveFolderPath graph accessToken folderName w =
     (case folderName of
        None \<Rightarrow> (Inr (get_property WELL_KNOWN_FOLDERS ''inbox''), \<lparr>calls = [], remote = w\<rparr>)
      | Some name \<Rightarrow>
          if name = [] then
            (Inr (get_property WELL_KNOWN_FOLDERS ''inbox''), \<lparr>calls = [], remote = w\<rparr>)
          else if js_truthy (get_property WELL_KNOWN_FOLDERS (toLowerCase name)) then
            (Inr (get_property WELL_KNOWN_FOLDERS (toLowerCase name)),
             \<lparr>calls = [], remote = w\<rparr>)
          else
            (case getFolderIdByName graph accessToken name \<lparr>calls = [], remote = w\<rparr> of
               (Some folderId, s) \<Rightarrow>
                 if folderId \<noteq> []
                 then (Inr (JString (''me/mailFolders/'' @ folderId @ ''/messages'')), s)
                 else (Inl (Error (not_found_message name)), s)
             | (None, s) \<Rightarrow> (Inl (Error (not_found_message name)), s)))"

section \<open>What a run of the planner looks like\<close>

text \<open>
  The predicates in which the properties of a run are stated. A call is barren when it
  was rejected or brought no item. The trace is logged when the \<open>i\<close>-th call was
  issued with exactly the first \<open>i + 1\<close> tags of the final log: one call for each tag,
  made right after the tag was pushed.
\<close>

definition barren :: "api_error + 'e GraphAPIResponse \<Rightarrow> bool" where
  "barren out = (case out of Inl e \<Rightarrow> True | Inr response \<Rightarrow> resp_value response = [])"

definition logged :: "('e, 'w) pstate \<Rightarrow> bool" where
  "logged s =
     (map call_log (trace s) =
      map (\<lambda>n. take (Suc n) (searchAttempts s)) [0..<length (searchAttempts s)])"

text \<open>
  The clauses that strategies 1 and 2 put into \<^verbatim>\<open>$filter\<close>, and what the merge
  with the boolean clauses makes of a non-empty clause.
\<close>

definition from_clause :: "string \<Rightarrow> string" where
  "from_clause f = ''sender/emailAddress/address eq '' @ [sq] @ toLowerCase (replace_quotes f) @ [sq]"

definition subject_clause :: "string \<Rightarrow> string" where
  "subject_clause subj = ''startswith(subject,'' @ [sq] @ replace_quotes subj @ [sq] @ '')''"

definition merged_filter :: "string \<Rightarrow> FilterTerms \<Rightarrow> string" where
  "merged_filter clause filterTerms =
     (if hasAttachments filterTerms = Some True \<or> unreadOnly filterTerms = Some True
      then ''('' @ clause @ '') and '' @ join '' and '' (filterConditions filterTerms)
      else clause)"

text \<open>
  What every call of a run looks like, by the tag that was pushed last before it: the
  call of strategy 1 goes to \<^verbatim>\<open>me/messages\<close> with \<^verbatim>\<open>$count\<close>, the header and no
  ordering, every other call goes to the endpoint with the ordering.
\<close>

definition well_shaped ::
  "string \<Rightarrow> string \<Rightarrow> SearchTerms \<Rightarrow> FilterTerms \<Rightarrow> int \<Rightarrow> 'e call \<Rightarrow> bool" where
  "well_shaped endpoint accessToken searchTerms filterTerms maxCount c =
     (call_log c \<noteq> [] \<and>
      req_accessToken (call_request c) = accessToken \<and>
      req_maxCount (call_request c) = maxCount \<and>
      top_param (req_queryParams (call_request c)) = Some (min 50 maxCount) \<and>
      select_param (req_queryParams (call_request c)) = Some EMAIL_SELECT_FIELDS \<and>
      (if last (call_log c) = ''filter-from-exact''
       then req_apiPath (call_request c) = ''me/messages'' \<and>
            orderby_param (req_queryParams (call_request c)) = None \<and>
            count_param (req_queryParams (call_request c)) = Some ''true'' \<and>
            req_extraHeaders (call_request c) = [(''ConsistencyLevel'', ''eventual'')] \<and>
            (case st_from searchTerms of
               None \<Rightarrow> False
             | Some f \<Rightarrow>
                 filter_param (req_queryParams (call_request c)) =
                   Some (merged_filter (from_clause f) filterTerms))
       else req_apiPath (call_request c) = endpoint \<and>
            orderby_param (req_queryParams (call_request c)) = Some ''receivedDateTime desc'' \<and>
            count_param (req_queryParams (call_request c)) = None \<and>
            req_extraHeaders (call_request c) = [] \<and>
            (if last (call_log c) = ''filter-subject-startswith''
             then (case st_subject searchTerms of
                     None \<Rightarrow> False
                   | Some subj \<Rightarrow>
                       filter_param (req_queryParams (call_request c)) =
                         Some (merged_filter (subject_clause subj) filterTerms))
             else True)))"

text \<open>
  The state of a run that is still going on (every call so far was barren), and the state
  and result of a run that ended inside a strategy (the last call resolved, and either
  brought items or was the call of strategy 5).
\<close>

definition cascading ::
  "string \<Rightarrow> string \<Rightarrow> SearchTerms \<Rightarrow> FilterTerms \<Rightarrow> int \<Rightarrow> ('e, 'w) pstate \<Rightarrow> bool" where
  "cascading endpoint accessToken searchTerms filterTerms maxCount s =
     (logged s \<and>
      list_all (well_shaped endpoint accessToken searchTerms filterTerms maxCount) (trace s) \<and>
      list_all (\<lambda>c. barren (call_outcome c)) (trace s))"

definition finished ::
  "string \<Rightarrow> string \<Rightarrow> SearchTerms \<Rightarrow> FilterTerms \<Rightarrow> int \<Rightarrow> 'e SearchResponse
     \<Rightarrow> ('e, 'w) pstate \<Rightarrow> bool" where
  "finished endpoint accessToken searchTerms filterTerms maxCount found s =
     (logged s \<and>
      list_all (well_shaped endpoint accessToken searchTerms filterTerms maxCount) (trace s) \<and>
      trace s \<noteq> [] \<and>
      list_all (\<lambda>c. barren (call_outcome c)) (butlast (trace s)) \<and>
      (case call_outcome (last (trace s)) of
         Inl e \<Rightarrow> False
       | Inr response \<Rightarrow>
           found = with_searchInfo response (searchAttempts s) \<and>
           (resp_value response \<noteq> [] \<or>
            last (searchAttempts s) = ''boolean-filters-only'' \<and>
            (hasAttachments filterTerms = Some True \<or> unreadOnly filterTerms = Some True))))"

definition step_ok ::
  "string \<Rightarrow> string \<Rightarrow> SearchTerms \<Rightarrow> FilterTerms \<Rightarrow> int
     \<Rightarrow> 'e SearchResponse option \<times> ('e, 'w) pstate \<Rightarrow> bool" where
  "step_ok endpoint accessToken searchTerms filterTerms maxCount r =
     (case r of
        (None, s') \<Rightarrow> cascading endpoint accessToken searchTerms filterTerms maxCount s'
      | (Some found, s') \<Rightarrow> finished endpoint accessToken searchTerms filterTerms maxCount found s')"

text \<open>
  A step only appends to the log and to the trace, and what it appends to the log is
  taken, in order, from the tags of that step.
\<close>

definition grows :: "string list \<Rightarrow> ('e, 'w) pstate \<Rightarrow> ('e, 'w) pstate \<Rightarrow> bool" where
  "grows tags s s' =
     (\<exists>ys cs. searchAttempts s' = searchAttempts s @ ys \<and> subseq ys tags \<and>
              trace s' = trace s @ cs)"

definition ALL_TAGS :: "string list" where
  "ALL_TAGS =
     [''filter-from-exact'', ''filter-subject-startswith'', ''kql-combined-search'',
      ''kql-single-term-subject'', ''kql-single-term-from'', ''kql-single-term-to'',
      ''kql-single-term-query'', ''boolean-filters-only'']"

text \<open>
  Two fetchers are compared by running the planner against both. They are related when
  they leave the remote side in the same state and their outcomes are alike: of the same
  yield (equal, or both barren) or of the same kind (equal, or both rejections). Two
  planner states are the same when they agree on everything but the recorded outcomes.
  \<open>as_unauthorized\<close> turns every rejection into the authentication failure;
  \<open>rejections_as_empty\<close> turns every rejection into the response with no item.
\<close>

definition same_yield ::
  "api_error + 'e GraphAPIResponse \<Rightarrow> api_error + 'e GraphAPIResponse \<Rightarrow> bool" where
  "same_yield out out' = (out = out' \<or> (barren out \<and> barren out'))"

definition same_kind ::
  "api_error + 'e GraphAPIResponse \<Rightarrow> api_error + 'e GraphAPIResponse \<Rightarrow> bool" where
  "same_kind out out' = (out = out' \<or> (isl out \<and> isl out'))"

definition related ::
  "(api_error + 'e GraphAPIResponse \<Rightarrow> api_error + 'e GraphAPIResponse \<Rightarrow> bool)
     \<Rightarrow> ('e, 'w) fetcher \<Rightarrow> ('e, 'w) fetcher \<Rightarrow> bool" where
  "related R api api' =
     (\<forall>req w. R (fst (api req w)) (fst (api' req w)) \<and> snd (api req w) = snd (api' req w))"

definition same_state :: "('e, 'w) pstate \<Rightarrow> ('e, 'w) pstate \<Rightarrow> bool" where
  "same_state s s' =
     (searchAttempts s = searchAttempts s' \<and> world s = world s' \<and>
      map call_request (trace s) = map call_request (trace s') \<and>
      map call_log (trace s) = map call_log (trace s'))"

definition as_unauthorized :: "('e, 'w) fetcher \<Rightarrow> ('e, 'w) fetcher" where
  "as_unauthorized api req w =
     (case api req w of (Inl e, w') \<Rightarrow> (Inl UNAUTHORIZED, w') | (Inr response, w') \<Rightarrow> (Inr response, w'))"

definition rejections_as_empty :: "('e, 'w) fetcher \<Rightarrow> ('e, 'w) fetcher" where
  "rejections_as_empty api req w =
     (case api req w of
        (Inl e, w') \<Rightarrow> (Inr \<lparr>resp_value = [], odata_count = Some 0\<rparr>, w')
      | (Inr response, w') \<Rightarrow> (Inr response, w'))"

text \<open>
  What strategies 1 to 4 do with the outcome of their call, and the end of the planner
  from strategy 5 on.
\<close>

definition first_hit ::
  "(api_error + 'e GraphAPIResponse) \<times> ('e, 'w) pstate
     \<Rightarrow> 'e SearchResponse option \<times> ('e, 'w) pstate" where
  "first_hit x =
     (case x of
        (Inr response, s2) \<Rightarrow>
          if resp_value response \<noteq> []
          then (Some (with_searchInfo response (searchAttempts s2)), s2)
          else (None, s2)
      | (Inl e, s2) \<Rightarrow> (None, s2))"

definition finish5 ::
  "('e, 'w) fetcher \<Rightarrow> string \<Rightarrow> string \<Rightarrow> FilterTerms \<Rightarrow> int \<Rightarrow> ('e, 'w) pstate
     \<Rightarrow> (api_error + 'e SearchResponse) \<times> ('e, 'w) pstate" where
  "finish5 api endpoint accessToken filterTerms maxCount s4 =
     (case strategy5 api endpoint accessToken filterTerms maxCount s4 of
        (Some found, s) \<Rightarrow> (Inr found, s)
      | (None, s5) \<Rightarrow> (Inr (all_failed (searchAttempts s5)), s5))"

text \<open>
  The plan of a search: the tags of the strategies whose precondition holds on the input,
  in the order of the cascade. A step covers its tags when, falling through, it has
  pushed all of them and, returning, it has pushed some first ones of them and returns
  a result without the \<^verbatim>\<open>failed\<close> flag.
\<close>

definition single_tags :: "SearchTerms \<Rightarrow> term_key list \<Rightarrow> string list" where
  "single_tags searchTerms keys =
     concat (map (\<lambda>k. if truthy (term_of searchTerms k)
                        then [''kql-single-term-'' @ key_name k] else []) keys)"

definition front_plan :: "SearchTerms \<Rightarrow> string list" where
  "front_plan searchTerms =
     (case st_from searchTerms of
        Some f \<Rightarrow> if f \<noteq> [] \<and> includes_str f ''@'' then [''filter-from-exact''] else []
      | None \<Rightarrow> []) @
     (if truthy (st_subject searchTerms) then [''filter-subject-startswith''] else []) @
     (if length (kqlTerms searchTerms) > 0 then [''kql-combined-search''] else []) @
     single_tags searchTerms searchPriority"

definition plan :: "SearchTerms \<Rightarrow> FilterTerms \<Rightarrow> string list" where
  "plan searchTerms filterTerms =
     front_plan searchTerms @
     (if hasAttachments filterTerms = Some True \<or> unreadOnly filterTerms = Some True
      then [''boolean-filters-only''] else [])"

definition covers ::
  "string list \<Rightarrow> ('e, 'w) pstate \<Rightarrow> 'e SearchResponse option \<times> ('e, 'w) pstate \<Rightarrow> bool" where
  "covers tags s r =
     (case r of
        (None, s') \<Rightarrow> searchAttempts s' = searchAttempts s @ tags
      | (Some found, s') \<Rightarrow>
          failed (searchInfo found) = None \<and>
          prefix (searchAttempts s') (searchAttempts s @ tags))"

text \<open>
  A remote side shows no match for a name when its answer to the exact-name query is never
  a non-empty list, and no folder of any listing has the name, cases ignored.
\<close>

definition shows_no_match :: "'w graph \<Rightarrow> string \<Rightarrow> bool" where
  "shows_no_match graph folderName =
     (\<forall>req w. case fst (graph req w) of
        Inl e \<Rightarrow> True
      | Inr None \<Rightarrow> True
      | Inr (Some v) \<Rightarrow>
          if filter_param (gr_queryParams req) = None
          then list_all (\<lambda>f. toLowerCase (displayName f) \<noteq> toLowerCase folderName) v
          else v = [])"

section \<open>Concrete runs\<close>

text \<open>
  Fetchers and inputs on which the planner is run: a fetcher that finds nothing by
  \<^verbatim>\<open>$filter\<close> and two items by \<^verbatim>\<open>$search\<close>, one that rejects every call as
  unauthorized, one that answers 400 to every call; each counts its calls in the state of
  the remote side. The folder resolver is run against a mailbox without folders.
\<close>

definition inbox :: string where
  "inbox = ''me/mailFolders/inbox/messages''"

definition from_only :: SearchTerms where
  "from_only = \<lparr>st_query = None, st_from = Some ''a@b.com'', st_to = None, st_subject = None\<rparr>"

definition no_filters :: FilterTerms where
  "no_filters = \<lparr>hasAttachments = None, unreadOnly = None\<rparr>"

definition mock_api :: "(nat, nat) fetcher" where
  "mock_api req w =
     (if search_param (req_queryParams req) = None
      then Inr \<lparr>resp_value = [], odata_count = Some 0\<rparr>
      else Inr \<lparr>resp_value = [101, 102], odata_count = Some 2\<rparr>, Suc w)"

definition mock_run :: "(api_error + nat SearchResponse) \<times> (nat, nat) pstate" where
  "mock_run = progressiveSearch mock_api inbox ''token'' from_only no_filters 10 0"

definition unread_only :: FilterTerms where
  "unread_only = \<lparr>hasAttachments = None, unreadOnly = Some True\<rparr>"

definition filtered_run :: "(api_error + nat SearchResponse) \<times> (nat, nat) pstate" where
  "filtered_run = progressiveSearch mock_api inbox ''token'' from_only unread_only 10 0"

definition obrien_from :: SearchTerms where
  "obrien_from =
     \<lparr>st_query = None, st_from = Some (''O'' @ [sq] @ ''Brien'' @ [sq] @ ''s@example.com''),
      st_to = None, st_subject = None\<rparr>"

definition obrien_both :: SearchTerms where
  "obrien_both =
     \<lparr>st_query = None, st_from = Some (''O'' @ [sq] @ ''Brien'' @ [sq] @ ''s@example.com''),
      st_to = None, st_subject = Some (''O'' @ [sq] @ ''Brien'' @ [sq] @ ''s'')\<rparr>"

definition obrien_from_run :: "(api_error + nat SearchResponse) \<times> (nat, nat) pstate" where
  "obrien_from_run = progressiveSearch mock_api inbox ''token'' obrien_from no_filters 10 0"

definition obrien_both_run :: "(api_error + nat SearchResponse) \<times> (nat, nat) pstate" where
  "obrien_both_run = progressiveSearch mock_api inbox ''token'' obrien_both no_filters 10 0"

definition no_terms :: SearchTerms where
  "no_terms = \<lparr>st_query = None, st_from = None, st_to = None, st_subject = None\<rparr>"

definition unread_run :: "(api_error + nat SearchResponse) \<times> (nat, nat) pstate" where
  "unread_run = progressiveSearch mock_api inbox ''token'' no_terms unread_only 10 0"

definition unauthorized_api :: "(nat, nat) fetcher" where
  "unauthorized_api req w = (Inl UNAUTHORIZED, Suc w)"

definition unauthorized_run :: "(api_error + nat SearchResponse) \<times> (nat, nat) pstate" where
  "unauthorized_run = progressiveSearch unauthorized_api inbox ''token'' from_only unread_only 10 0"

definition failing_api :: "(nat, nat) fetcher" where
  "failing_api req w = (Inl (ApiFailed 400 ''Bad Request''), Suc w)"

definition failing_run :: "(api_error + nat SearchResponse) \<times> (nat, nat) pstate" where
  "failing_run = progressiveSearch failing_api inbox ''token'' no_terms unread_only 10 0"

definition absorbed_run :: "(api_error + nat SearchResponse) \<times> (nat, nat) pstate" where
  "absorbed_run =
     progressiveSearch (rejections_as_empty failing_api) inbox ''token'' no_terms unread_only 10 0"

definition failing_from_run :: "(api_error + nat SearchResponse) \<times> (nat, nat) pstate" where
  "failing_from_run = progressiveSearch failing_api inbox ''token'' from_only no_filters 10 0"

definition absorbed_from_run :: "(api_error + nat SearchResponse) \<times> (nat, nat) pstate" where
  "absorbed_from_run =
     progressiveSearch (rejections_as_empty failing_api) inbox ''token'' from_only no_filters 10 0"

definition failing_both_run :: "(api_error + nat SearchResponse) \<times> (nat, nat) pstate" where
  "failing_both_run = progressiveSearch failing_api inbox ''token'' from_only unread_only 10 0"

definition absorbed_both_run :: "(api_error + nat SearchResponse) \<times> (nat, nat) pstate" where
  "absorbed_both_run =
     progressiveSearch (rejections_as_empty failing_api) inbox ''token'' from_only unread_only 10 0"

definition empty_mailbox :: "unit graph" where
  "empty_mailbox req w = (Inr (Some []), w)"

section \<open>Lemmas on the query parameter builder\<close>

lemma join_filterConditions:
  "join '' and '' (filterConditions ft) =
     (if hasAttachments ft = Some True
      then if unreadOnly ft = Some True then ''hasAttachments eq true and isRead eq false''
           else ''hasAttachments eq true''
      else if unreadOnly ft = Some True then ''isRead eq false'' else [])"
  by (simp add: filterConditions_def)

lemma filterConditions_empty:
  "filterConditions ft = [] \<longleftrightarrow> \<not> (hasAttachments ft = Some True \<or> unreadOnly ft = Some True)"
  by (simp add: filterConditions_def)

lemma addBooleanFiltersToFilter_fields [simp]:
  "top_param (addBooleanFiltersToFilter p ft) = top_param p"
  "select_param (addBooleanFiltersToFilter p ft) = select_param p"
  "orderby_param (addBooleanFiltersToFilter p ft) = orderby_param p"
  "search_param (addBooleanFiltersToFilter p ft) = search_param p"
  "count_param (addBooleanFiltersToFilter p ft) = count_param p"
  by (simp_all add: addBooleanFiltersToFilter_def split: option.splits)

lemma addBooleanFiltersToFilter_filter:
  "clause \<noteq> [] \<Longrightarrow> filter_param p = Some clause \<Longrightarrow>
   filter_param (addBooleanFiltersToFilter p ft) = Some (merged_filter clause ft)"
  by (simp add: addBooleanFiltersToFilter_def merged_filter_def filterConditions_empty)

lemma addBooleanFilters_fields [simp]:
  "top_param (addBooleanFilters p ft) = top_param p"
  "select_param (addBooleanFilters p ft) = select_param p"
  "orderby_param (addBooleanFilters p ft) = orderby_param p"
  "search_param (addBooleanFilters p ft) = search_param p"
  "count_param (addBooleanFilters p ft) = count_param p"
  by (simp_all add: addBooleanFilters_def)

lemma no_params_fields [simp]:
  "top_param no_params = None" "select_param no_params = None"
  "orderby_param no_params = None" "filter_param no_params = None"
  "search_param no_params = None" "count_param no_params = None"
  by (simp_all add: no_params_def)

section \<open>The query parameter builder merges without clobbering\<close>

text \<open>
  Claim C7. With at least one boolean flag true, \<^const>\<open>addBooleanFiltersToFilter\<close>
  changes \<^verbatim>\<open>$filter\<close> and nothing else: a non-empty prior filter is wrapped in
  parentheses and joined to the new clauses with \<^verbatim>\<open>and\<close>; an absent (or empty)
  one is replaced by the new clauses. The new clauses are
  \<^verbatim>\<open>hasAttachments eq true\<close>, \<^verbatim>\<open>isRead eq false\<close>, or both joined by
  \<^verbatim>\<open>and\<close>.
\<close>

theorem addBooleanFiltersToFilter_merge:
  assumes "hasAttachments ft = Some True \<or> unreadOnly ft = Some True"
    and "clauses =
      (if hasAttachments ft = Some True
       then if unreadOnly ft = Some True then ''hasAttachments eq true and isRead eq false''
            else ''hasAttachments eq true''
       else ''isRead eq false'')"
  shows "addBooleanFiltersToFilter params ft =
      params\<lparr>filter_param :=
        Some (case filter_param params of
                Some f \<Rightarrow> if f \<noteq> [] then ''('' @ f @ '') and '' @ clauses else clauses
              | None \<Rightarrow> clauses)\<rparr>"
  using assms
  by (auto simp: addBooleanFiltersToFilter_def join_filterConditions filterConditions_empty
           split: option.splits)

text \<open>
  The instance named in the claim: \<^verbatim>\<open>{$filter: "a eq 1"}\<close> merged with
  \<^verbatim>\<open>{hasAttachments: true}\<close>.
\<close>

theorem addBooleanFiltersToFilter_merge_witness:
  "(hasAttachments \<lparr>hasAttachments = Some True, unreadOnly = None\<rparr> = Some True
      \<or> unreadOnly \<lparr>hasAttachments = Some True, unreadOnly = None\<rparr> = Some True) \<and>
   addBooleanFiltersToFilter (no_params\<lparr>filter_param := Some ''a eq 1''\<rparr>)
       \<lparr>hasAttachments = Some True, unreadOnly = None\<rparr> =
     no_params\<lparr>filter_param := Some ''(a eq 1) and hasAttachments eq true''\<rparr>"
  using addBooleanFiltersToFilter_merge
    [of "\<lparr>hasAttachments = Some True, unreadOnly = None\<rparr>" "''hasAttachments eq true''"
        "no_params\<lparr>filter_param := Some ''a eq 1''\<rparr>"]
  by simp

section \<open>Invariants of the cascade\<close>

lemma logged_snoc:
  assumes "logged s" and "searchAttempts s' = searchAttempts s @ [tag]"
    and "trace s' = trace s @ [c]" and "call_log c = searchAttempts s @ [tag]"
  shows "logged s'"
  using assms by (auto simp: logged_def)

lemma logged_length: "logged s \<Longrightarrow> length (trace s) = length (searchAttempts s)"
  unfolding logged_def by (drule arg_cong[where f = length]) simp

lemma logged_nth:
  assumes "logged s" and "i < length (trace s)"
  shows "call_log (trace s ! i) = take (Suc i) (searchAttempts s)"
proof -
  have len: "length (trace s) = length (searchAttempts s)" by (rule logged_length[OF assms(1)])
  have "map call_log (trace s) ! i =
        map (\<lambda>n. take (Suc n) (searchAttempts s)) [0..<length (searchAttempts s)] ! i"
    using assms(1) by (simp add: logged_def)
  then show ?thesis using assms(2) len by simp
qed

text \<open>One attempt: a push followed by a call.\<close>

lemma attempt:
  assumes "callGraphAPIPaginated api req (push tag s) = (out, s2)"
  shows "searchAttempts s2 = searchAttempts s @ [tag] \<and>
         trace s2 = trace s @ [\<lparr>call_request = req, call_log = searchAttempts s @ [tag],
                                 call_outcome = out\<rparr>]"
  using assms by (auto simp: callGraphAPIPaginated_def push_def split: prod.splits)

lemma attempt_grows:
  assumes "callGraphAPIPaginated api req (push tag s) = (out, s2)"
  shows "grows [tag] s s2"
  using attempt[OF assms] by (auto simp: grows_def)

lemma grows_refl: "grows tags s s"
  by (simp add: grows_def)

lemma grows_trans:
  assumes "grows t1 s s'" and "grows t2 s' s''"
  shows "grows (t1 @ t2) s s''"
proof -
  from assms(1) obtain ys cs where 1: "searchAttempts s' = searchAttempts s @ ys"
    "subseq ys t1" "trace s' = trace s @ cs" by (auto simp: grows_def)
  from assms(2) obtain zs ds where 2: "searchAttempts s'' = searchAttempts s' @ zs"
    "subseq zs t2" "trace s'' = trace s' @ ds" by (auto simp: grows_def)
  have "subseq (ys @ zs) (t1 @ t2)" using 1(2) 2(2) by (rule list_emb_append_mono)
  then show ?thesis using 1 2 unfolding grows_def
    by (intro exI[of _ "ys @ zs"] exI[of _ "cs @ ds"]) simp
qed

lemma attempt_cascading:
  assumes "cascading endpoint tok st ft mc s"
    and "callGraphAPIPaginated api req (push tag s) = (out, s2)"
    and "well_shaped endpoint tok st ft mc
           \<lparr>call_request = req, call_log = searchAttempts s @ [tag], call_outcome = out\<rparr>"
    and "barren out"
  shows "cascading endpoint tok st ft mc s2"
  using assms(1,3,4) attempt[OF assms(2)]
  by (auto simp: cascading_def intro: logged_snoc)

lemma attempt_finished:
  assumes "cascading endpoint tok st ft mc s"
    and "callGraphAPIPaginated api req (push tag s) = (Inr response, s2)"
    and "well_shaped endpoint tok st ft mc
           \<lparr>call_request = req, call_log = searchAttempts s @ [tag],
            call_outcome = Inr response\<rparr>"
    and "resp_value response \<noteq> [] \<or>
         tag = ''boolean-filters-only'' \<and>
         (hasAttachments ft = Some True \<or> unreadOnly ft = Some True)"
  shows "finished endpoint tok st ft mc (with_searchInfo response (searchAttempts s2)) s2"
  using assms(1,3,4) attempt[OF assms(2)]
  by (auto simp: cascading_def finished_def intro: logged_snoc)

lemma strategy1_step:
  assumes "cascading ep tok st ft mc s"
  shows "step_ok ep tok st ft mc (strategy1 api tok st ft mc s)"
  using assms
  by (auto simp: strategy1_def step_ok_def Let_def well_shaped_def barren_def
                 addBooleanFiltersToFilter_filter from_clause_def
           split: option.splits prod.splits sum.splits
           intro!: attempt_cascading[OF assms] attempt_finished[OF assms])

lemma strategy2_step:
  assumes "cascading ep tok st ft mc s"
  shows "step_ok ep tok st ft mc (strategy2 api ep tok st ft mc s)"
  using assms
  by (auto simp: strategy2_def step_ok_def Let_def well_shaped_def barren_def
                 addBooleanFiltersToFilter_filter subject_clause_def
           split: option.splits prod.splits sum.splits
           intro!: attempt_cascading[OF assms] attempt_finished[OF assms])

lemma strategy3_step:
  assumes "cascading ep tok st ft mc s"
  shows "step_ok ep tok st ft mc (strategy3 api ep tok st ft mc s)"
  using assms
  by (auto simp: strategy3_def step_ok_def Let_def well_shaped_def barren_def
           split: option.splits prod.splits sum.splits
           intro!: attempt_cascading[OF assms] attempt_finished[OF assms])

lemma single_term_step:
  assumes "cascading ep tok st ft mc s"
  shows "step_ok ep tok st ft mc (single_term api ep tok st ft mc term s)"
  using assms
  by (cases "term")
     (auto simp: single_term_def step_ok_def Let_def well_shaped_def barren_def
           split: option.splits prod.splits sum.splits
           intro!: attempt_cascading[OF assms] attempt_finished[OF assms])

lemma strategy4_step:
  "cascading ep tok st ft mc s \<Longrightarrow> step_ok ep tok st ft mc (strategy4 api ep tok st ft mc keys s)"
proof (induction keys arbitrary: s)
  case Nil
  then show ?case by (simp add: step_ok_def)
next
  case (Cons k keys)
  obtain r s' where st: "single_term api ep tok st ft mc k s = (r, s')"
    by (cases "single_term api ep tok st ft mc k s")
  from single_term_step[OF Cons.prems, of api k] st
  have ok: "step_ok ep tok st ft mc (r, s')" by simp
  show ?case
  proof (cases r)
    case None
    with ok have "cascading ep tok st ft mc s'" by (simp add: step_ok_def)
    from Cons.IH[OF this] have "step_ok ep tok st ft mc (strategy4 api ep tok st ft mc keys s')" .
    then show ?thesis using st None by simp
  next
    case (Some found)
    with ok st show ?thesis by simp
  qed
qed

lemma strategy5_step:
  assumes "cascading ep tok st ft mc s"
  shows "step_ok ep tok st ft mc (strategy5 api ep tok ft mc s)"
  using assms
  by (auto simp: strategy5_def step_ok_def Let_def well_shaped_def barren_def
           split: option.splits prod.splits sum.splits
           intro!: attempt_cascading[OF assms] attempt_finished[OF assms])

lemma cascading_init: "cascading ep tok st ft mc \<lparr>searchAttempts = [], trace = [], world = w\<rparr>"
  by (simp add: cascading_def logged_def)

lemma strategy1_grows:
  assumes "strategy1 api tok st ft mc s = (r, s')"
  shows "grows [''filter-from-exact''] s s'"
  using assms
  by (auto simp: strategy1_def Let_def grows_refl
           split: option.splits if_splits prod.splits sum.splits dest: attempt_grows)

lemma strategy2_grows:
  assumes "strategy2 api ep tok st ft mc s = (r, s')"
  shows "grows [''filter-subject-startswith''] s s'"
  using assms
  by (auto simp: strategy2_def Let_def grows_refl
           split: option.splits if_splits prod.splits sum.splits dest: attempt_grows)

lemma strategy3_grows:
  assumes "strategy3 api ep tok st ft mc s = (r, s')"
  shows "grows [''kql-combined-search''] s s'"
  using assms
  by (auto simp: strategy3_def Let_def grows_refl
           split: option.splits if_splits prod.splits sum.splits dest: attempt_grows)

lemma single_term_grows:
  assumes "single_term api ep tok st ft mc k s = (r, s')"
  shows "grows [''kql-single-term-'' @ key_name k] s s'"
  using assms
  by (auto simp: single_term_def Let_def grows_refl
           split: option.splits if_splits prod.splits sum.splits dest: attempt_grows)

lemma grows_weaken: "grows t1 s s' \<Longrightarrow> grows (t1 @ t2) s s'"
  by (auto simp: grows_def intro: subseq_rev_drop_many)

lemma strategy4_grows:
  "strategy4 api ep tok st ft mc keys s = (r, s') \<Longrightarrow>
   grows (map (\<lambda>k. ''kql-single-term-'' @ key_name k) keys) s s'"
proof (induction keys arbitrary: s)
  case Nil
  then show ?case by (simp add: grows_refl)
next
  case (Cons k keys)
  obtain r1 s1 where st: "single_term api ep tok st ft mc k s = (r1, s1)"
    by (cases "single_term api ep tok st ft mc k s")
  have g1: "grows [''kql-single-term-'' @ key_name k] s s1" by (rule single_term_grows[OF st])
  show ?case
  proof (cases r1)
    case None
    with Cons.prems st have "strategy4 api ep tok st ft mc keys s1 = (r, s')" by simp
    from grows_trans[OF g1 Cons.IH[OF this]] show ?thesis by simp
  next
    case (Some found)
    with Cons.prems st have "s' = s1" by simp
    with grows_weaken[OF g1, of "map (\<lambda>k. ''kql-single-term-'' @ key_name k) keys"]
    show ?thesis by simp
  qed
qed

lemma strategy5_grows:
  assumes "strategy5 api ep tok ft mc s = (r, s')"
  shows "grows [''boolean-filters-only''] s s'"
  using assms
  by (auto simp: strategy5_def Let_def grows_refl
           split: option.splits if_splits prod.splits sum.splits dest: attempt_grows)

text \<open>The five steps of one run, named.\<close>

lemma progressiveSearch_steps:
  assumes "progressiveSearch api ep tok st ft mc w = (res, s)"
  obtains r1 s1 r2 s2 r3 s3 r4 s4 r5 s5 where
    "strategy1 api tok st ft mc \<lparr>searchAttempts = [], trace = [], world = w\<rparr> = (r1, s1)"
    "strategy2 api ep tok st ft mc s1 = (r2, s2)"
    "strategy3 api ep tok st ft mc s2 = (r3, s3)"
    "strategy4 api ep tok st ft mc searchPriority s3 = (r4, s4)"
    "strategy5 api ep tok ft mc s4 = (r5, s5)"
    "(res, s) =
       (case r1 of Some found \<Rightarrow> (Inr found, s1) | None \<Rightarrow>
       (case r2 of Some found \<Rightarrow> (Inr found, s2) | None \<Rightarrow>
       (case r3 of Some found \<Rightarrow> (Inr found, s3) | None \<Rightarrow>
       (case r4 of Some found \<Rightarrow> (Inr found, s4) | None \<Rightarrow>
       (case r5 of Some found \<Rightarrow> (Inr found, s5) | None \<Rightarrow>
          (Inr (all_failed (searchAttempts s5)), s5))))))"
proof -
  obtain r1 s1 where e1: "strategy1 api tok st ft mc \<lparr>searchAttempts = [], trace = [], world = w\<rparr> = (r1, s1)" by fastforce
  obtain r2 s2 where e2: "strategy2 api ep tok st ft mc s1 = (r2, s2)" by fastforce
  obtain r3 s3 where e3: "strategy3 api ep tok st ft mc s2 = (r3, s3)" by fastforce
  obtain r4 s4 where e4: "strategy4 api ep tok st ft mc searchPriority s3 = (r4, s4)" by fastforce
  obtain r5 s5 where e5: "strategy5 api ep tok ft mc s4 = (r5, s5)" by fastforce
  have "(res, s) =
       (case r1 of Some found \<Rightarrow> (Inr found, s1) | None \<Rightarrow>
       (case r2 of Some found \<Rightarrow> (Inr found, s2) | None \<Rightarrow>
       (case r3 of Some found \<Rightarrow> (Inr found, s3) | None \<Rightarrow>
       (case r4 of Some found \<Rightarrow> (Inr found, s4) | None \<Rightarrow>
       (case r5 of Some found \<Rightarrow> (Inr found, s5) | None \<Rightarrow>
          (Inr (all_failed (searchAttempts s5)), s5))))))"
    using assms e1 e2 e3 e4 e5
    by (auto simp: progressiveSearch_def split: option.splits)
  with e1 e2 e3 e4 e5 show ?thesis by (rule that)
qed

lemma progressiveSearch_run:
  assumes "progressiveSearch api ep tok st ft mc w = (res, s)"
  shows "(\<exists>found. res = Inr found \<and> finished ep tok st ft mc found s) \<or>
         (res = Inr (all_failed (searchAttempts s)) \<and> cascading ep tok st ft mc s)"
proof -
  from assms obtain r1 s1 r2 s2 r3 s3 r4 s4 r5 s5 where
    e1: "strategy1 api tok st ft mc \<lparr>searchAttempts = [], trace = [], world = w\<rparr> = (r1, s1)" and
    e2: "strategy2 api ep tok st ft mc s1 = (r2, s2)" and
    e3: "strategy3 api ep tok st ft mc s2 = (r3, s3)" and
    e4: "strategy4 api ep tok st ft mc searchPriority s3 = (r4, s4)" and
    e5: "strategy5 api ep tok ft mc s4 = (r5, s5)" and
    res: "(res, s) =
       (case r1 of Some found \<Rightarrow> (Inr found, s1) | None \<Rightarrow>
       (case r2 of Some found \<Rightarrow> (Inr found, s2) | None \<Rightarrow>
       (case r3 of Some found \<Rightarrow> (Inr found, s3) | None \<Rightarrow>
       (case r4 of Some found \<Rightarrow> (Inr found, s4) | None \<Rightarrow>
       (case r5 of Some found \<Rightarrow> (Inr found, s5) | None \<Rightarrow>
          (Inr (all_failed (searchAttempts s5)), s5))))))"
    by (rule progressiveSearch_steps)
  have k1: "step_ok ep tok st ft mc (r1, s1)"
    using strategy1_step[OF cascading_init[of ep tok st ft mc w], where api = api] e1 by simp
  show ?thesis
  proof (cases r1)
    case (Some found)
    then show ?thesis using res k1 by (auto simp: step_ok_def)
  next
    case n1: None
    then have c1: "cascading ep tok st ft mc s1" using k1 by (simp add: step_ok_def)
    have k2: "step_ok ep tok st ft mc (r2, s2)" using strategy2_step[OF c1, where api = api] e2 by simp
    show ?thesis
    proof (cases r2)
      case (Some found)
      then show ?thesis using res n1 k2 by (auto simp: step_ok_def)
    next
      case n2: None
      then have c2: "cascading ep tok st ft mc s2" using k2 by (simp add: step_ok_def)
      have k3: "step_ok ep tok st ft mc (r3, s3)" using strategy3_step[OF c2, where api = api] e3 by simp
      show ?thesis
      proof (cases r3)
        case (Some found)
        then show ?thesis using res n1 n2 k3 by (auto simp: step_ok_def)
      next
        case n3: None
        then have c3: "cascading ep tok st ft mc s3" using k3 by (simp add: step_ok_def)
        have k4: "step_ok ep tok st ft mc (r4, s4)"
          using strategy4_step[OF c3, where api = api and keys = searchPriority] e4 by simp
        show ?thesis
        proof (cases r4)
          case (Some found)
          then show ?thesis using res n1 n2 n3 k4 by (auto simp: step_ok_def)
        next
          case n4: None
          then have c4: "cascading ep tok st ft mc s4" using k4 by (simp add: step_ok_def)
          have k5: "step_ok ep tok st ft mc (r5, s5)"
            using strategy5_step[OF c4, where api = api] e5 by simp
          show ?thesis
          proof (cases r5)
            case (Some found)
            then show ?thesis using res n1 n2 n3 n4 k5 by (auto simp: step_ok_def)
          next
            case None
            then show ?thesis using res n1 n2 n3 n4 k5 by (auto simp: step_ok_def)
          qed
        qed
      qed
    qed
  qed
qed

lemma progressiveSearch_invariants:
  assumes "progressiveSearch api ep tok st ft mc w = (res, s)"
  shows "logged s" and "list_all (well_shaped ep tok st ft mc) (trace s)"
  using progressiveSearch_run[OF assms] by (auto simp: finished_def cascading_def)

lemma progressiveSearch_grows:
  assumes "progressiveSearch api ep tok st ft mc w = (res, s)"
  obtains s1 r1 where
    "strategy1 api tok st ft mc \<lparr>searchAttempts = [], trace = [], world = w\<rparr> = (r1, s1)"
    "grows (tl ALL_TAGS) s1 s"
proof -
  from assms obtain r1 s1 r2 s2 r3 s3 r4 s4 r5 s5 where
    e1: "strategy1 api tok st ft mc \<lparr>searchAttempts = [], trace = [], world = w\<rparr> = (r1, s1)" and
    e2: "strategy2 api ep tok st ft mc s1 = (r2, s2)" and
    e3: "strategy3 api ep tok st ft mc s2 = (r3, s3)" and
    e4: "strategy4 api ep tok st ft mc searchPriority s3 = (r4, s4)" and
    e5: "strategy5 api ep tok ft mc s4 = (r5, s5)" and
    res: "(res, s) =
       (case r1 of Some found \<Rightarrow> (Inr found, s1) | None \<Rightarrow>
       (case r2 of Some found \<Rightarrow> (Inr found, s2) | None \<Rightarrow>
       (case r3 of Some found \<Rightarrow> (Inr found, s3) | None \<Rightarrow>
       (case r4 of Some found \<Rightarrow> (Inr found, s4) | None \<Rightarrow>
       (case r5 of Some found \<Rightarrow> (Inr found, s5) | None \<Rightarrow>
          (Inr (all_failed (searchAttempts s5)), s5))))))"
    by (rule progressiveSearch_steps)
  let ?t2 = "[''filter-subject-startswith'']"
  let ?t3 = "[''kql-combined-search'']"
  let ?t4 = "map (\<lambda>k. ''kql-single-term-'' @ key_name k) searchPriority"
  let ?t5 = "[''boolean-filters-only'']"
  have tags: "tl ALL_TAGS = ?t2 @ ?t3 @ ?t4 @ ?t5"
    by (simp add: ALL_TAGS_def searchPriority_def)
  have g2: "grows ?t2 s1 s2" by (rule strategy2_grows[OF e2])
  have g3: "grows ?t3 s2 s3" by (rule strategy3_grows[OF e3])
  have g4: "grows ?t4 s3 s4" by (rule strategy4_grows[OF e4])
  have g5: "grows ?t5 s4 s5" by (rule strategy5_grows[OF e5])
  have a1: "grows (?t2 @ ?t3 @ ?t4 @ ?t5) s1 s1" by (rule grows_refl)
  have a2: "grows (?t2 @ ?t3 @ ?t4 @ ?t5) s1 s2" by (rule grows_weaken[OF g2])
  have a3: "grows (?t2 @ ?t3 @ ?t4 @ ?t5) s1 s3"
    using grows_weaken[OF grows_trans[OF g2 g3], of "?t4 @ ?t5"] by simp
  have a4: "grows (?t2 @ ?t3 @ ?t4 @ ?t5) s1 s4"
    using grows_weaken[OF grows_trans[OF grows_trans[OF g2 g3] g4], of ?t5] by simp
  have a5: "grows (?t2 @ ?t3 @ ?t4 @ ?t5) s1 s5"
    using grows_trans[OF grows_trans[OF grows_trans[OF g2 g3] g4] g5] by simp
  have "s = s1 \<or> s = s2 \<or> s = s3 \<or> s = s4 \<or> s = s5"
    using res by (auto split: option.splits)
  with a1 a2 a3 a4 a5 have "grows (tl ALL_TAGS) s1 s" unfolding tags by blast
  with e1 show ?thesis by (rule that)
qed

lemma distinct_ALL_TAGS: "distinct ALL_TAGS"
  by (simp add: ALL_TAGS_def)

lemma subseq_distinct: "subseq xs ys \<Longrightarrow> distinct ys \<Longrightarrow> distinct xs"
  by (induction rule: list_emb.induct) (auto dest: list_emb_set)

text \<open>The log is a subsequence of the fixed order of tags.\<close>

lemma progressiveSearch_log_order:
  assumes "progressiveSearch api ep tok st ft mc w = (res, s)"
  shows "subseq (searchAttempts s) ALL_TAGS"
proof -
  from assms obtain s1 r1 where
    e1: "strategy1 api tok st ft mc \<lparr>searchAttempts = [], trace = [], world = w\<rparr> = (r1, s1)" and
    g: "grows (tl ALL_TAGS) s1 s" by (rule progressiveSearch_grows)
  have "grows [''filter-from-exact''] \<lparr>searchAttempts = [], trace = [], world = w\<rparr> s1"
    by (rule strategy1_grows[OF e1])
  from grows_trans[OF this g]
  have "grows ALL_TAGS \<lparr>searchAttempts = [], trace = [], world = w\<rparr> s"
    by (simp add: ALL_TAGS_def)
  then show ?thesis by (auto simp: grows_def)
qed

lemma last_take_Suc: "i < length xs \<Longrightarrow> last (take (Suc i) xs) = xs ! i"
  by (simp add: take_Suc_conv_app_nth)

lemma logged_tag:
  assumes "logged s" and "i < length (trace s)"
  shows "last (call_log (trace s ! i)) = searchAttempts s ! i"
  using logged_nth[OF assms] logged_length[OF assms(1)] assms(2)
  by (simp add: last_take_Suc)

section \<open>Short-circuit on the first non-empty result\<close>

text \<open>
  Claim C1. In every run of \<^const>\<open>progressiveSearch\<close>, a call that resolves to at least
  one item is the last call of the run: the planner returns that response with the log as
  it stood at that call, every earlier call was rejected or empty, and the log is a
  duplicate-free subsequence of the fixed order of tags, so that its last tag is the one
  winning strategy.
\<close>

theorem progressiveSearch_short_circuit:
  assumes "progressiveSearch api endpoint accessToken searchTerms filterTerms maxCount w = (res, s)"
    and "i < length (trace s)"
    and "call_outcome (trace s ! i) = Inr response"
    and "resp_value response \<noteq> []"
  shows "Suc i = length (trace s) \<and>
         res = Inr (with_searchInfo response (searchAttempts s)) \<and>
         call_log (trace s ! i) = searchAttempts s \<and>
         (\<forall>j < i. barren (call_outcome (trace s ! j))) \<and>
         subseq (searchAttempts s) ALL_TAGS \<and> distinct (searchAttempts s)"
proof -
  have nb: "\<not> barren (call_outcome (trace s ! i))"
    using assms(3,4) by (simp add: barren_def)
  have lg: "logged s" by (rule progressiveSearch_invariants(1)[OF assms(1)])
  have ord: "subseq (searchAttempts s) ALL_TAGS" by (rule progressiveSearch_log_order[OF assms(1)])
  from progressiveSearch_run[OF assms(1)]
  show ?thesis
  proof
    assume "\<exists>found. res = Inr found \<and>
              finished endpoint accessToken searchTerms filterTerms maxCount found s"
    then obtain found where r: "res = Inr found"
      and f: "finished endpoint accessToken searchTerms filterTerms maxCount found s" by blast
    from f have ne: "trace s \<noteq> []"
      and bl: "list_all (\<lambda>c. barren (call_outcome c)) (butlast (trace s))"
      by (simp_all add: finished_def)
    have early: "barren (call_outcome (trace s ! j))" if "Suc j < length (trace s)" for j
    proof -
      have "j < length (butlast (trace s))" using that by simp
      then have "barren (call_outcome (butlast (trace s) ! j))"
        using bl by (simp add: list_all_length)
      then show ?thesis using that by (simp add: nth_butlast)
    qed
    have i: "Suc i = length (trace s)"
    proof (rule ccontr)
      assume "Suc i \<noteq> length (trace s)"
      with assms(2) have "Suc i < length (trace s)" by simp
      from early[OF this] nb show False by simp
    qed
    then have "i = length (trace s) - 1" by simp
    then have "last (trace s) = trace s ! i" using ne by (simp add: last_conv_nth)
    with f assms(3) have "found = with_searchInfo response (searchAttempts s)"
      by (simp add: finished_def)
    moreover have "call_log (trace s ! i) = searchAttempts s"
      using logged_nth[OF lg assms(2)] logged_length[OF lg] i by simp
    moreover have "\<forall>j < i. barren (call_outcome (trace s ! j))"
      using early i by simp
    ultimately show ?thesis using r i ord subseq_distinct[OF ord distinct_ALL_TAGS] by simp
  next
    assume "res = Inr (all_failed (searchAttempts s)) \<and>
            cascading endpoint accessToken searchTerms filterTerms maxCount s"
    then have "list_all (\<lambda>c. barren (call_outcome c)) (trace s)" by (simp add: cascading_def)
    then have "barren (call_outcome (trace s ! i))" using assms(2) by (simp add: list_all_length)
    with nb show ?thesis by simp
  qed
qed

text \<open>
  A run in which strategy 1 finds nothing and strategy 3 finds two items: the second call
  is the last one.
\<close>

theorem progressiveSearch_short_circuit_witness:
  "1 < length (trace (snd mock_run)) \<and>
   call_outcome (trace (snd mock_run) ! 1) = Inr \<lparr>resp_value = [101, 102], odata_count = Some 2\<rparr> \<and>
   [101, 102 :: nat] \<noteq> [] \<and>
   length (trace (snd mock_run)) = 2 \<and>
   fst mock_run =
     Inr \<lparr>found_value = [101, 102], found_count = Some 2,
          searchInfo = \<lparr>strategies = [''filter-from-exact'', ''kql-combined-search''],
                        failed = None\<rparr>\<rparr> \<and>
   call_log (trace (snd mock_run) ! 1) = [''filter-from-exact'', ''kql-combined-search''] \<and>
   barren (call_outcome (trace (snd mock_run) ! 0))"
proof -
  have run: "progressiveSearch mock_api inbox ''token'' from_only no_filters 10 0 =
             (fst mock_run, snd mock_run)"
    by (simp add: mock_run_def)
  have i: "1 < length (trace (snd mock_run))" by code_simp
  have out: "call_outcome (trace (snd mock_run) ! 1) =
             Inr \<lparr>resp_value = [101, 102], odata_count = Some 2\<rparr>" by code_simp
  have log: "searchAttempts (snd mock_run) = [''filter-from-exact'', ''kql-combined-search'']"
    by code_simp
  from progressiveSearch_short_circuit[OF run i out] log i out
  show ?thesis by (simp add: with_searchInfo_def)
qed

section \<open>The requests of strategy 1 and of the later strategies\<close>

text \<open>When \<open>from\<close> holds an address, the first call is that of strategy 1.\<close>

lemma strategy1_call:
  assumes "st_from st = Some f" and "includes_str f ''@''"
    and "strategy1 api tok st ft mc \<lparr>searchAttempts = [], trace = [], world = w\<rparr> = (r1, s1)"
  shows "searchAttempts s1 = [''filter-from-exact''] \<and>
         (\<exists>c. trace s1 = [c] \<and> call_log c = [''filter-from-exact''] \<and>
              call_request c =
                \<lparr>req_accessToken = tok, req_apiPath = ''me/messages'',
                 req_queryParams =
                   \<lparr>top_param = Some (min 50 mc), select_param = Some EMAIL_SELECT_FIELDS,
                    orderby_param = None,
                    filter_param = Some (merged_filter (from_clause f) ft),
                    search_param = None, count_param = Some ''true''\<rparr>,
                 req_maxCount = mc,
                 req_extraHeaders = [(''ConsistencyLevel'', ''eventual'')]\<rparr>)"
proof -
  have ne: "f \<noteq> []" using assms(2) by auto
  let ?p = "no_params\<lparr>top_param := Some (min 50 mc), select_param := Some EMAIL_SELECT_FIELDS,
      filter_param := Some (from_clause f), count_param := Some ''true''\<rparr>"
  have p: "addBooleanFiltersToFilter ?p ft =
       \<lparr>top_param = Some (min 50 mc), select_param = Some EMAIL_SELECT_FIELDS,
        orderby_param = None, filter_param = Some (merged_filter (from_clause f) ft),
        search_param = None, count_param = Some ''true''\<rparr>"
    by (simp add: addBooleanFiltersToFilter_def merged_filter_def filterConditions_empty
          no_params_def from_clause_def)
  show ?thesis
    using assms(1,3) ne assms(2) p
    by (auto simp: strategy1_def Let_def callGraphAPIPaginated_def push_def from_clause_def
             split: prod.splits sum.splits if_splits)
qed

lemma first_call:
  assumes "progressiveSearch api ep tok st ft mc w = (res, s)"
    and "st_from st = Some f" and "includes_str f ''@''"
  shows "\<exists>c cs. trace s = c # cs \<and> call_log c = [''filter-from-exact''] \<and>
           call_request c =
             \<lparr>req_accessToken = tok, req_apiPath = ''me/messages'',
              req_queryParams =
                \<lparr>top_param = Some (min 50 mc), select_param = Some EMAIL_SELECT_FIELDS,
                 orderby_param = None,
                 filter_param = Some (merged_filter (from_clause f) ft),
                 search_param = None, count_param = Some ''true''\<rparr>,
              req_maxCount = mc,
              req_extraHeaders = [(''ConsistencyLevel'', ''eventual'')]\<rparr> \<and>
           (\<forall>c' \<in> set cs. last (call_log c') \<noteq> ''filter-from-exact'')"
proof -
  from assms(1) obtain s1 r1 where
    e1: "strategy1 api tok st ft mc \<lparr>searchAttempts = [], trace = [], world = w\<rparr> = (r1, s1)" and
    g: "grows (tl ALL_TAGS) s1 s" by (rule progressiveSearch_grows)
  from strategy1_call[OF assms(2,3) e1] obtain c where
    a1: "searchAttempts s1 = [''filter-from-exact'']" and t1: "trace s1 = [c]" and
    c: "call_log c = [''filter-from-exact'']"
       "call_request c =
             \<lparr>req_accessToken = tok, req_apiPath = ''me/messages'',
              req_queryParams =
                \<lparr>top_param = Some (min 50 mc), select_param = Some EMAIL_SELECT_FIELDS,
                 orderby_param = None,
                 filter_param = Some (merged_filter (from_clause f) ft),
                 search_param = None, count_param = Some ''true''\<rparr>,
              req_maxCount = mc,
              req_extraHeaders = [(''ConsistencyLevel'', ''eventual'')]\<rparr>" by blast
  from g a1 t1 obtain ys cs where
    a: "searchAttempts s = ''filter-from-exact'' # ys" and sub: "subseq ys (tl ALL_TAGS)" and
    t: "trace s = c # cs" by (auto simp: grows_def)
  have lg: "logged s" by (rule progressiveSearch_invariants(1)[OF assms(1)])
  have len: "length cs = length ys" using logged_length[OF lg] a t by simp
  have "last (call_log c') \<noteq> ''filter-from-exact''" if "c' \<in> set cs" for c'
  proof -
    from that obtain j where j: "j < length cs" "c' = cs ! j" by (auto simp: in_set_conv_nth)
    then have "last (call_log (trace s ! Suc j)) = searchAttempts s ! Suc j"
      using logged_tag[OF lg, of "Suc j"] t by simp
    then have "last (call_log c') = ys ! j" using j t a by simp
    moreover have "ys ! j \<in> set ys" using j len by simp
    moreover have "set ys \<subseteq> set (tl ALL_TAGS)" using sub by (auto elim: list_emb_set)
    ultimately show ?thesis by (auto simp: ALL_TAGS_def)
  qed
  with t c show ?thesis by blast
qed

lemma well_shaped_calls:
  assumes "progressiveSearch api ep tok st ft mc w = (res, s)" and "c \<in> set (trace s)"
  shows "well_shaped ep tok st ft mc c"
  using progressiveSearch_invariants(2)[OF assms(1)] assms(2) by (simp add: list_all_iff)

text \<open>
  Claim C10. In every run, the call of strategy 1 goes to the fixed path
  \<^verbatim>\<open>me/messages\<close>, whatever endpoint was passed, and every call of another strategy
  goes to the endpoint passed. When \<open>from\<close> contains \<open>@\<close>, the first call of the
  run is that of strategy 1, and no later call is.
\<close>

theorem strategy1_ignores_endpoint:
  assumes "progressiveSearch api endpoint accessToken searchTerms filterTerms maxCount w = (res, s)"
  shows "(\<forall>c \<in> set (trace s).
            req_apiPath (call_request c) =
              (if last (call_log c) = ''filter-from-exact'' then ''me/messages'' else endpoint)) \<and>
         (\<forall>f. st_from searchTerms = Some f \<and> includes_str f ''@'' \<longrightarrow>
            trace s \<noteq> [] \<and>
            call_log (hd (trace s)) = [''filter-from-exact''] \<and>
            (\<forall>c \<in> set (tl (trace s)). last (call_log c) \<noteq> ''filter-from-exact''))"
proof -
  have "req_apiPath (call_request c) =
          (if last (call_log c) = ''filter-from-exact'' then ''me/messages'' else endpoint)"
    if "c \<in> set (trace s)" for c
    using well_shaped_calls[OF assms that] by (simp add: well_shaped_def)
  moreover have "trace s \<noteq> [] \<and> call_log (hd (trace s)) = [''filter-from-exact''] \<and>
            (\<forall>c \<in> set (tl (trace s)). last (call_log c) \<noteq> ''filter-from-exact'')"
    if "st_from searchTerms = Some f" and "includes_str f ''@''" for f
    using first_call[OF assms that] by auto
  ultimately show ?thesis by blast
qed

text \<open>
  In the run above the endpoint is the inbox, and the two calls go to
  \<^verbatim>\<open>me/messages\<close> and to the inbox.
\<close>

theorem strategy1_ignores_endpoint_witness:
  "st_from from_only = Some ''a@b.com'' \<and> includes_str ''a@b.com'' ''@'' \<and>
   map (\<lambda>c. last (call_log c)) (trace (snd mock_run)) =
     [''filter-from-exact'', ''kql-combined-search''] \<and>
   map (\<lambda>c. req_apiPath (call_request c)) (trace (snd mock_run)) = [''me/messages'', inbox] \<and>
   inbox \<noteq> ''me/messages''"
proof -
  have run: "progressiveSearch mock_api inbox ''token'' from_only no_filters 10 0 =
             (fst mock_run, snd mock_run)"
    by (simp add: mock_run_def)
  have f: "st_from from_only = Some ''a@b.com''" by (simp add: from_only_def)
  have at: "includes_str ''a@b.com'' ''@''" by code_simp
  have tags: "map (\<lambda>c. last (call_log c)) (trace (snd mock_run)) =
     [''filter-from-exact'', ''kql-combined-search'']" by code_simp
  then obtain c1 c2 where t: "trace (snd mock_run) = [c1, c2]"
    and l: "last (call_log c1) = ''filter-from-exact''" "last (call_log c2) = ''kql-combined-search''"
    by auto
  from strategy1_ignores_endpoint[OF run] t l f at tags
  show ?thesis by (auto simp: inbox_def)
qed

section \<open>The request of strategy 1, and escaping\<close>

lemma toLowerCase_char_sq: "toLowerCase_char c = sq \<longleftrightarrow> c = sq"
proof -
  have "(of_char (toLowerCase_char c) :: nat) = 39 \<longleftrightarrow> (of_char c :: nat) = 39"
    by (auto simp: toLowerCase_char_def Let_def)
  moreover have "(of_char sq :: nat) = 39" by (simp add: sq_def)
  ultimately show ?thesis by (metis of_char_eq_iff)
qed

lemma toLowerCase_replace_quotes:
  "toLowerCase (replace_quotes s) = replace_quotes (toLowerCase s)"
  by (induction s) (auto simp: toLowerCase_def replace_quotes_def toLowerCase_char_sq)

lemma replace_quotes_plain: "sq \<notin> set a \<Longrightarrow> replace_quotes a = a"
  by (induction a) (auto simp: replace_quotes_def)

text \<open>
  Claim C4, as the code has it. When \<open>from\<close> contains \<open>@\<close>, strategy 1 is
  attempted first; its request carries \<^verbatim>\<open>$count=true\<close> and the header
  \<^verbatim>\<open>ConsistencyLevel: eventual\<close> and has no \<^verbatim>\<open>$orderby\<close>, while every later
  call has \<^verbatim>\<open>$orderby=receivedDateTime desc\<close>. Its \<^verbatim>\<open>$filter\<close> is the sender
  clause, with the lower-cased, quote-doubled \<open>from\<close>, when no boolean flag is true;
  with a flag true the clause is put in parentheses and the boolean clauses are joined to
  it. Lower-casing and doubling the quotes commute.
\<close>

theorem strategy1_request:
  assumes "progressiveSearch api endpoint accessToken searchTerms filterTerms maxCount w = (res, s)"
    and "st_from searchTerms = Some f" and "includes_str f ''@''"
    and "clause = ''sender/emailAddress/address eq '' @ [sq] @ toLowerCase (replace_quotes f) @ [sq]"
  shows "trace s \<noteq> [] \<and>
         call_log (hd (trace s)) = [''filter-from-exact''] \<and>
         call_request (hd (trace s)) =
           \<lparr>req_accessToken = accessToken, req_apiPath = ''me/messages'',
            req_queryParams =
              \<lparr>top_param = Some (min 50 maxCount), select_param = Some EMAIL_SELECT_FIELDS,
               orderby_param = None,
               filter_param =
                 Some (if hasAttachments filterTerms = Some True \<or>
                          unreadOnly filterTerms = Some True
                       then ''('' @ clause @ '') and '' @
                            join '' and '' (filterConditions filterTerms)
                       else clause),
               search_param = None, count_param = Some ''true''\<rparr>,
            req_maxCount = maxCount,
            req_extraHeaders = [(''ConsistencyLevel'', ''eventual'')]\<rparr> \<and>
         (\<forall>c \<in> set (tl (trace s)).
            last (call_log c) \<noteq> ''filter-from-exact'' \<and>
            orderby_param (req_queryParams (call_request c)) = Some ''receivedDateTime desc'') \<and>
         toLowerCase (replace_quotes f) = replace_quotes (toLowerCase f)"
proof -
  from first_call[OF assms(1-3)] obtain c cs where
    t: "trace s = c # cs" and c: "call_log c = [''filter-from-exact'']"
      "call_request c =
             \<lparr>req_accessToken = accessToken, req_apiPath = ''me/messages'',
              req_queryParams =
                \<lparr>top_param = Some (min 50 maxCount), select_param = Some EMAIL_SELECT_FIELDS,
                 orderby_param = None,
                 filter_param = Some (merged_filter (from_clause f) filterTerms),
                 search_param = None, count_param = Some ''true''\<rparr>,
              req_maxCount = maxCount,
              req_extraHeaders = [(''ConsistencyLevel'', ''eventual'')]\<rparr>" and
    cs: "\<forall>c' \<in> set cs. last (call_log c') \<noteq> ''filter-from-exact''" by blast
  have "last (call_log c') \<noteq> ''filter-from-exact'' \<and>
        orderby_param (req_queryParams (call_request c')) = Some ''receivedDateTime desc''"
    if "c' \<in> set cs" for c'
  proof -
    have "c' \<in> set (trace s)" using that t by simp
    from well_shaped_calls[OF assms(1) this] cs that show ?thesis
      by (simp add: well_shaped_def)
  qed
  with t c assms(4) show ?thesis
    by (simp add: merged_filter_def from_clause_def toLowerCase_replace_quotes)
qed

text \<open>
  The run for \<^verbatim>\<open>{from: "a@b.com"}\<close> without filters: the first call has the bare
  sender clause and no ordering, the second call is ordered.
\<close>

theorem strategy1_request_witness:
  "st_from from_only = Some ''a@b.com'' \<and> includes_str ''a@b.com'' ''@'' \<and>
   length (trace (snd mock_run)) = 2 \<and>
   filter_param (req_queryParams (call_request (hd (trace (snd mock_run))))) =
     Some (''sender/emailAddress/address eq '' @ [sq] @ ''a@b.com'' @ [sq]) \<and>
   orderby_param (req_queryParams (call_request (hd (trace (snd mock_run))))) = None \<and>
   orderby_param (req_queryParams (call_request (trace (snd mock_run) ! 1))) =
     Some ''receivedDateTime desc''"
proof -
  have run: "progressiveSearch mock_api inbox ''token'' from_only no_filters 10 0 =
             (fst mock_run, snd mock_run)"
    by (simp add: mock_run_def)
  have f: "st_from from_only = Some ''a@b.com''" by (simp add: from_only_def)
  have at: "includes_str ''a@b.com'' ''@''" by code_simp
  have low: "toLowerCase (replace_quotes ''a@b.com'') = ''a@b.com''" by code_simp
  have len: "length (trace (snd mock_run)) = 2" by code_simp
  then obtain c1 c2 where t: "trace (snd mock_run) = [c1, c2]"
    by (cases "trace (snd mock_run)"; cases "tl (trace (snd mock_run))") auto
  from strategy1_request[OF run f at refl] t f at low len
  show ?thesis by (simp add: no_filters_def)
qed

text \<open>
  Claim C4 as stated fails when a boolean flag is set: for \<^verbatim>\<open>{from: "a@b.com"}\<close>
  with \<^verbatim>\<open>{unreadOnly: true}\<close> the \<^verbatim>\<open>$filter\<close> of strategy 1 is the clause in
  parentheses followed by \<^verbatim>\<open>and isRead eq false\<close>, not the clause alone.
\<close>

theorem strategy1_filter_counterexample:
  "st_from from_only = Some ''a@b.com'' \<and> includes_str ''a@b.com'' ''@'' \<and>
   filter_param (req_queryParams (call_request (hd (trace (snd filtered_run))))) =
     Some (''(sender/emailAddress/address eq '' @ [sq] @ ''a@b.com'' @ [sq] @
           '') and isRead eq false'') \<and>
   filter_param (req_queryParams (call_request (hd (trace (snd filtered_run))))) \<noteq>
     Some (''sender/emailAddress/address eq '' @ [sq] @
           toLowerCase (replace_quotes ''a@b.com'') @ [sq])"
  by code_simp

text \<open>
  Claim C8, as the code has it. In every run, the \<^verbatim>\<open>$filter\<close> of the call of
  strategy 1 is built from the sender clause holding \<open>from\<close> with its quotes doubled
  and then lower-cased, and the \<^verbatim>\<open>$filter\<close> of the call of strategy 2 from the
  \<^verbatim>\<open>startswith\<close> clause holding \<open>subject\<close> with its quotes doubled.
  \<^const>\<open>replace_quotes\<close> doubles every quote and changes nothing else.
\<close>

theorem quotes_doubled:
  assumes "progressiveSearch api endpoint accessToken searchTerms filterTerms maxCount w = (res, s)"
    and "c \<in> set (trace s)"
  shows "(last (call_log c) = ''filter-from-exact'' \<longrightarrow>
            (\<exists>f. st_from searchTerms = Some f \<and>
               filter_param (req_queryParams (call_request c)) =
                 Some (merged_filter
                   (''sender/emailAddress/address eq '' @ [sq] @
                      toLowerCase (replace_quotes f) @ [sq]) filterTerms))) \<and>
         (last (call_log c) = ''filter-subject-startswith'' \<longrightarrow>
            (\<exists>subj. st_subject searchTerms = Some subj \<and>
               filter_param (req_queryParams (call_request c)) =
                 Some (merged_filter
                   (''startswith(subject,'' @ [sq] @ replace_quotes subj @ [sq] @ '')'')
                   filterTerms))) \<and>
         replace_quotes (a @ sq # b) = replace_quotes a @ [sq, sq] @ replace_quotes b \<and>
         (sq \<notin> set a \<longrightarrow> replace_quotes a = a)"
proof -
  have "replace_quotes (a @ sq # b) = replace_quotes a @ [sq, sq] @ replace_quotes b"
    by (simp add: replace_quotes_def)
  with well_shaped_calls[OF assms] replace_quotes_plain[of a] show ?thesis
    by (auto simp: well_shaped_def from_clause_def subject_clause_def
             split: option.splits if_splits)
qed

text \<open>
  With \<open>from\<close> \<^verbatim>\<open>O'Brien's@example.com\<close> and \<open>subject\<close> \<^verbatim>\<open>O'Brien's\<close>:
  the sender clause holds \<^verbatim>\<open>o''brien''s@example.com\<close>, the subject clause holds
  \<^verbatim>\<open>O''Brien''s\<close>.
\<close>

theorem quotes_doubled_witness:
  "length (trace (snd obrien_both_run)) = 3 \<and>
   last (call_log (trace (snd obrien_both_run) ! 0)) = ''filter-from-exact'' \<and>
   filter_param (req_queryParams (call_request (trace (snd obrien_both_run) ! 0))) =
     Some (''sender/emailAddress/address eq '' @ [sq] @
           ''o'' @ [sq, sq] @ ''brien'' @ [sq, sq] @ ''s@example.com'' @ [sq]) \<and>
   last (call_log (trace (snd obrien_both_run) ! 1)) = ''filter-subject-startswith'' \<and>
   filter_param (req_queryParams (call_request (trace (snd obrien_both_run) ! 1))) =
     Some (''startswith(subject,'' @ [sq] @
           ''O'' @ [sq, sq] @ ''Brien'' @ [sq, sq] @ ''s'' @ [sq] @ '')'') \<and>
   sq \<notin> set ''Brien'' \<and> replace_quotes ''Brien'' = ''Brien''"
proof -
  have run: "progressiveSearch mock_api inbox ''token'' obrien_both no_filters 10 0 =
             (fst obrien_both_run, snd obrien_both_run)"
    by (simp add: obrien_both_run_def)
  have len: "length (trace (snd obrien_both_run)) = 3" by code_simp
  have m0: "trace (snd obrien_both_run) ! 0 \<in> set (trace (snd obrien_both_run))"
    and m1: "trace (snd obrien_both_run) ! 1 \<in> set (trace (snd obrien_both_run))"
    using len by simp_all
  have t0: "last (call_log (trace (snd obrien_both_run) ! 0)) = ''filter-from-exact''"
    by code_simp
  have t1: "last (call_log (trace (snd obrien_both_run) ! 1)) = ''filter-subject-startswith''"
    by code_simp
  have e0: "merged_filter (''sender/emailAddress/address eq '' @ [sq] @
              toLowerCase (replace_quotes (''O'' @ [sq] @ ''Brien'' @ [sq] @ ''s@example.com'')) @ [sq])
              no_filters =
            ''sender/emailAddress/address eq '' @ [sq] @
              ''o'' @ [sq, sq] @ ''brien'' @ [sq, sq] @ ''s@example.com'' @ [sq]"
    by code_simp
  have e1: "merged_filter (''startswith(subject,'' @ [sq] @
              replace_quotes (''O'' @ [sq] @ ''Brien'' @ [sq] @ ''s'') @ [sq] @ '')'') no_filters =
            ''startswith(subject,'' @ [sq] @
              ''O'' @ [sq, sq] @ ''Brien'' @ [sq, sq] @ ''s'' @ [sq] @ '')''"
    by code_simp
  have q: "sq \<notin> set ''Brien''" by (simp add: sq_def)
  from quotes_doubled[OF run m0, of "''Brien''" "[]"] quotes_doubled[OF run m1, of "''Brien''" "[]"]
    t0 t1 e0 e1 q len
  show ?thesis by (simp add: obrien_both_def)
qed

text \<open>
  Claim C8 as stated fails on its own example: for the \<open>from\<close> value
  \<^verbatim>\<open>O'Brien's@example.com\<close> the only \<^verbatim>\<open>$filter\<close> of the run holds
  \<^verbatim>\<open>o''brien''s\<close>, in lower case, and \<^verbatim>\<open>O''Brien''s\<close> does not occur in it.
\<close>

theorem quotes_doubled_counterexample:
  "includes_str (''O'' @ [sq] @ ''Brien'' @ [sq] @ ''s@example.com'')
                (''O'' @ [sq] @ ''Brien'' @ [sq] @ ''s'') \<and>
   length (trace (snd obrien_from_run)) = 2 \<and>
   filter_param (req_queryParams (call_request (trace (snd obrien_from_run) ! 0))) =
     Some (''sender/emailAddress/address eq '' @ [sq] @
           ''o'' @ [sq, sq] @ ''brien'' @ [sq, sq] @ ''s@example.com'' @ [sq]) \<and>
   \<not> includes_str
       (''sender/emailAddress/address eq '' @ [sq] @
        ''o'' @ [sq, sq] @ ''brien'' @ [sq, sq] @ ''s@example.com'' @ [sq])
       (''O'' @ [sq, sq] @ ''Brien'' @ [sq, sq] @ ''s'') \<and>
   filter_param (req_queryParams (call_request (trace (snd obrien_from_run) ! 1))) = None"
  by code_simp

section \<open>Filters only, and the end-to-end example\<close>

text \<open>
  Claim C5. Without \<open>query\<close>, \<open>from\<close>, \<open>to\<close> and \<open>subject\<close>, and with
  \<open>unreadOnly\<close> the only flag that is true, the run makes exactly one call, that of
  strategy 5, and its \<^verbatim>\<open>$filter\<close> is \<^verbatim>\<open>isRead eq false\<close>.
\<close>

theorem boolean_filters_only:
  assumes "st_query searchTerms = None" and "st_from searchTerms = None"
    and "st_to searchTerms = None" and "st_subject searchTerms = None"
    and "unreadOnly filterTerms = Some True" and "hasAttachments filterTerms \<noteq> Some True"
    and "progressiveSearch api endpoint accessToken searchTerms filterTerms maxCount w = (res, s)"
  shows "searchAttempts s = [''boolean-filters-only''] \<and>
         map call_request (trace s) =
           [\<lparr>req_accessToken = accessToken, req_apiPath = endpoint,
             req_queryParams =
               \<lparr>top_param = Some (min 50 maxCount), select_param = Some EMAIL_SELECT_FIELDS,
                orderby_param = Some ''receivedDateTime desc'',
                filter_param = Some ''isRead eq false'',
                search_param = None, count_param = None\<rparr>,
             req_maxCount = maxCount, req_extraHeaders = []\<rparr>]"
proof -
  have p: "addBooleanFilters
             (no_params\<lparr>top_param := Some (min 50 maxCount),
                select_param := Some EMAIL_SELECT_FIELDS,
                orderby_param := Some ''receivedDateTime desc''\<rparr>) filterTerms =
           \<lparr>top_param = Some (min 50 maxCount), select_param = Some EMAIL_SELECT_FIELDS,
            orderby_param = Some ''receivedDateTime desc'',
            filter_param = Some ''isRead eq false'',
            search_param = None, count_param = None\<rparr>"
    using assms(5,6)
    by (simp add: addBooleanFilters_def join_filterConditions filterConditions_empty no_params_def)
  have s1: "strategy1 api accessToken searchTerms filterTerms maxCount s0 = (None, s0)" for s0
    using assms(2) by (simp add: strategy1_def)
  have s2: "strategy2 api endpoint accessToken searchTerms filterTerms maxCount s0 = (None, s0)" for s0
    using assms(4) by (simp add: strategy2_def)
  have s3: "strategy3 api endpoint accessToken searchTerms filterTerms maxCount s0 = (None, s0)" for s0
    using assms(1-4) by (simp add: strategy3_def kqlTerms_def)
  have s4: "strategy4 api endpoint accessToken searchTerms filterTerms maxCount searchPriority s0
            = (None, s0)" for s0
    using assms(1-4) by (simp add: searchPriority_def single_term_def)
  show ?thesis
    using assms(5,7) p
    by (auto simp: progressiveSearch_def s1 s2 s3 s4 strategy5_def Let_def
                   callGraphAPIPaginated_def push_def
             split: prod.splits sum.splits)
qed

text \<open>
  The run with no search terms and \<^verbatim>\<open>{unreadOnly: true}\<close>.
\<close>

theorem boolean_filters_only_witness:
  "st_query no_terms = None \<and> st_from no_terms = None \<and> st_to no_terms = None \<and>
   st_subject no_terms = None \<and> unreadOnly unread_only = Some True \<and>
   hasAttachments unread_only \<noteq> Some True \<and>
   searchAttempts (snd unread_run) = [''boolean-filters-only''] \<and>
   map (\<lambda>c. filter_param (req_queryParams (call_request c))) (trace (snd unread_run)) =
     [Some ''isRead eq false'']"
proof -
  have run: "progressiveSearch mock_api inbox ''token'' no_terms unread_only 10 0 =
             (fst unread_run, snd unread_run)"
    by (simp add: unread_run_def)
  have h: "st_query no_terms = None" "st_from no_terms = None" "st_to no_terms = None"
    "st_subject no_terms = None" "unreadOnly unread_only = Some True"
    "hasAttachments unread_only \<noteq> Some True"
    by (simp_all add: no_terms_def unread_only_def)
  from boolean_filters_only[OF h run]
  have "map call_request (trace (snd unread_run)) =
           [\<lparr>req_accessToken = ''token'', req_apiPath = inbox,
             req_queryParams =
               \<lparr>top_param = Some (min 50 10), select_param = Some EMAIL_SELECT_FIELDS,
                orderby_param = Some ''receivedDateTime desc'',
                filter_param = Some ''isRead eq false'',
                search_param = None, count_param = None\<rparr>,
             req_maxCount = 10, req_extraHeaders = []\<rparr>]"
    and a: "searchAttempts (snd unread_run) = [''boolean-filters-only'']" by simp_all
  then have "map (\<lambda>c. filter_param (req_queryParams (call_request c))) (trace (snd unread_run)) =
     [Some ''isRead eq false'']"
    by (cases "trace (snd unread_run)") auto
  with h a show ?thesis by simp
qed

text \<open>
  Claim C6. For \<^verbatim>\<open>{from: "a@b.com"}\<close>, no filters and a count of 10, against any
  fetcher that answers the request of strategy 1 with no item and then the request of
  strategy 3 with two items: the planner returns these two items and the log
  \<^verbatim>\<open>["filter-from-exact", "kql-combined-search"]\<close>, after exactly two calls.
\<close>

theorem end_to_end:
  assumes "api \<lparr>req_accessToken = accessToken, req_apiPath = ''me/messages'',
                req_queryParams =
                  \<lparr>top_param = Some 10, select_param = Some EMAIL_SELECT_FIELDS,
                   orderby_param = None,
                   filter_param =
                     Some (''sender/emailAddress/address eq '' @ [sq] @ ''a@b.com'' @ [sq]),
                   search_param = None, count_param = Some ''true''\<rparr>,
                req_maxCount = 10,
                req_extraHeaders = [(''ConsistencyLevel'', ''eventual'')]\<rparr> w = (Inr r1, w1)"
    and "resp_value r1 = []"
    and "api \<lparr>req_accessToken = accessToken, req_apiPath = endpoint,
                req_queryParams =
                  \<lparr>top_param = Some 10, select_param = Some EMAIL_SELECT_FIELDS,
                   orderby_param = Some ''receivedDateTime desc'',
                   filter_param = None,
                   search_param = Some (''from:'' @ [dq] @ ''a@b.com'' @ [dq]),
                   count_param = None\<rparr>,
                req_maxCount = 10, req_extraHeaders = []\<rparr> w1 = (Inr r3, w3)"
    and "resp_value r3 = [e1, e2]"
    and "progressiveSearch api endpoint accessToken
           \<lparr>st_query = None, st_from = Some ''a@b.com'', st_to = None, st_subject = None\<rparr>
           \<lparr>hasAttachments = None, unreadOnly = None\<rparr> 10 w = (res, s)"
  shows "res = Inr \<lparr>found_value = [e1, e2], found_count = odata_count r3,
                    searchInfo = \<lparr>strategies = [''filter-from-exact'', ''kql-combined-search''],
                                  failed = None\<rparr>\<rparr> \<and>
         searchAttempts s = [''filter-from-exact'', ''kql-combined-search''] \<and>
         length (trace s) = 2 \<and> world s = w3"
proof -
  have at: "includes_str ''a@b.com'' ''@''" by code_simp
  have low: "toLowerCase (replace_quotes ''a@b.com'') = ''a@b.com''" by code_simp
  show ?thesis
    using assms at low
    by (auto simp: progressiveSearch_def strategy1_def strategy2_def strategy3_def kqlTerms_def
          Let_def callGraphAPIPaginated_def push_def addBooleanFilters_def
          addBooleanFiltersToFilter_def filterConditions_def no_params_def with_searchInfo_def)
qed

text \<open>
  The mock fetcher answers every \<^verbatim>\<open>$filter\<close> query with no item and every
  \<^verbatim>\<open>$search\<close> query with two.
\<close>

theorem end_to_end_witness:
  "fst mock_run =
     Inr \<lparr>found_value = [101, 102], found_count = Some 2,
          searchInfo = \<lparr>strategies = [''filter-from-exact'', ''kql-combined-search''],
                        failed = None\<rparr>\<rparr> \<and>
   searchAttempts (snd mock_run) = [''filter-from-exact'', ''kql-combined-search''] \<and>
   length (trace (snd mock_run)) = 2 \<and> world (snd mock_run) = 2"
proof -
  have run: "progressiveSearch mock_api inbox ''token''
           \<lparr>st_query = None, st_from = Some ''a@b.com'', st_to = None, st_subject = None\<rparr>
           \<lparr>hasAttachments = None, unreadOnly = None\<rparr> 10 0 = (fst mock_run, snd mock_run)"
    by (simp add: mock_run_def from_only_def no_filters_def)
  have c1: "mock_api \<lparr>req_accessToken = ''token'', req_apiPath = ''me/messages'',
                req_queryParams =
                  \<lparr>top_param = Some 10, select_param = Some EMAIL_SELECT_FIELDS,
                   orderby_param = None,
                   filter_param =
                     Some (''sender/emailAddress/address eq '' @ [sq] @ ''a@b.com'' @ [sq]),
                   search_param = None, count_param = Some ''true''\<rparr>,
                req_maxCount = 10,
                req_extraHeaders = [(''ConsistencyLevel'', ''eventual'')]\<rparr> 0 =
            (Inr \<lparr>resp_value = [], odata_count = Some 0\<rparr>, 1)"
    by (simp add: mock_api_def)
  have c3: "mock_api \<lparr>req_accessToken = ''token'', req_apiPath = inbox,
                req_queryParams =
                  \<lparr>top_param = Some 10, select_param = Some EMAIL_SELECT_FIELDS,
                   orderby_param = Some ''receivedDateTime desc'',
                   filter_param = None,
                   search_param = Some (''from:'' @ [dq] @ ''a@b.com'' @ [dq]),
                   count_param = None\<rparr>,
                req_maxCount = 10, req_extraHeaders = []\<rparr> 1 =
            (Inr \<lparr>resp_value = [101, 102], odata_count = Some 2\<rparr>, 2)"
    by (simp add: mock_api_def)
  from end_to_end[OF c1 _ c3 _ run] show ?thesis by simp
qed

section \<open>Rejections in the cascade\<close>

lemma same_kind_yield: "same_kind out out' \<Longrightarrow> same_yield out out'"
  by (auto simp: same_kind_def same_yield_def barren_def isl_def)

lemma related_kind_yield: "related same_kind api api' \<Longrightarrow> related same_yield api api'"
  by (simp add: related_def same_kind_yield)

lemma sim_call:
  assumes "related R api api'" and "same_state s s'"
    and "callGraphAPIPaginated api req (push tag s) = (out, t)"
    and "callGraphAPIPaginated api' req (push tag s') = (out', t')"
  shows "R out out' \<and> same_state t t'"
proof -
  have w: "world (push tag s) = world (push tag s')" using assms(2)
    by (simp add: push_def same_state_def)
  from assms(1) have "R (fst (api req (world (push tag s)))) (fst (api' req (world (push tag s))))"
    and "snd (api req (world (push tag s))) = snd (api' req (world (push tag s)))"
    by (simp_all add: related_def)
  with assms(2,3,4) w show ?thesis
    by (auto simp: callGraphAPIPaginated_def push_def same_state_def split: prod.splits)
qed

lemma sim_first_hit:
  assumes "related same_yield api api'" and "same_state s s'"
    and "first_hit (callGraphAPIPaginated api req (push tag s)) = (r, t)"
    and "first_hit (callGraphAPIPaginated api' req (push tag s')) = (r', t')"
  shows "r = r' \<and> same_state t t'"
proof -
  obtain out u where c: "callGraphAPIPaginated api req (push tag s) = (out, u)" by fastforce
  obtain out' u' where c': "callGraphAPIPaginated api' req (push tag s') = (out', u')" by fastforce
  from sim_call[OF assms(1,2) c c'] have y: "same_yield out out'" and st: "same_state u u'"
    by simp_all
  from assms(3) c have t: "t = u" by (auto simp: first_hit_def split: sum.splits if_splits)
  from assms(4) c' have t': "t' = u'" by (auto simp: first_hit_def split: sum.splits if_splits)
  from st have a: "searchAttempts u = searchAttempts u'" by (simp add: same_state_def)
  have "r = r'"
    using y assms(3,4) c c' a
    by (auto simp: same_yield_def barren_def first_hit_def split: sum.splits if_splits)
  with st t t' show ?thesis by simp
qed

lemma strategy1_first_hit:
  "strategy1 api accessToken searchTerms filterTerms maxCount s =
     (case st_from searchTerms of
        None \<Rightarrow> (None, s)
      | Some f \<Rightarrow>
          if f \<noteq> [] \<and> includes_str f ''@'' then
            first_hit (callGraphAPIPaginated api
               \<lparr>req_accessToken = accessToken, req_apiPath = ''me/messages'',
                req_queryParams = addBooleanFiltersToFilter
                   (no_params\<lparr>top_param := Some (min 50 maxCount),
                      select_param := Some EMAIL_SELECT_FIELDS,
                      filter_param :=
                        Some (''sender/emailAddress/address eq '' @ [sq] @
                              toLowerCase (replace_quotes f) @ [sq]),
                      count_param := Some ''true''\<rparr>) filterTerms,
                req_maxCount = maxCount,
                req_extraHeaders = [(''ConsistencyLevel'', ''eventual'')]\<rparr>
               (push ''filter-from-exact'' s))
          else (None, s))"
  by (simp add: strategy1_def first_hit_def Let_def split: option.splits)

lemma strategy2_first_hit:
  "strategy2 api endpoint accessToken searchTerms filterTerms maxCount s =
     (case st_subject searchTerms of
        None \<Rightarrow> (None, s)
      | Some subj \<Rightarrow>
          if subj \<noteq> [] then
            first_hit (callGraphAPIPaginated api
               \<lparr>req_accessToken = accessToken, req_apiPath = endpoint,
                req_queryParams = addBooleanFiltersToFilter
                   (no_params\<lparr>top_param := Some (min 50 maxCount),
                      select_param := Some EMAIL_SELECT_FIELDS,
                      orderby_param := Some ''receivedDateTime desc'',
                      filter_param :=
                        Some (''startswith(subject,'' @ [sq] @ replace_quotes subj @ [sq] @ '')'')\<rparr>)
                   filterTerms,
                req_maxCount = maxCount, req_extraHeaders = []\<rparr>
               (push ''filter-subject-startswith'' s))
          else (None, s))"
  by (simp add: strategy2_def first_hit_def Let_def split: option.splits)

lemma strategy3_first_hit:
  "strategy3 api endpoint accessToken searchTerms filterTerms maxCount s =
     (if length (kqlTerms searchTerms) > 0 then
        first_hit (callGraphAPIPaginated api
           \<lparr>req_accessToken = accessToken, req_apiPath = endpoint,
            req_queryParams = addBooleanFilters
               (no_params\<lparr>top_param := Some (min 50 maxCount),
                  select_param := Some EMAIL_SELECT_FIELDS,
                  orderby_param := Some ''receivedDateTime desc'',
                  search_param := Some (join '' '' (kqlTerms searchTerms))\<rparr>) filterTerms,
            req_maxCount = maxCount, req_extraHeaders = []\<rparr>
           (push ''kql-combined-search'' s))
      else (None, s))"
  by (simp add: strategy3_def first_hit_def Let_def)

lemma single_term_first_hit:
  "single_term api endpoint accessToken searchTerms filterTerms maxCount term s =
     (case term_of searchTerms term of
        None \<Rightarrow> (None, s)
      | Some v \<Rightarrow>
          if v \<noteq> [] then
            first_hit (callGraphAPIPaginated api
               \<lparr>req_accessToken = accessToken, req_apiPath = endpoint,
                req_queryParams = addBooleanFilters
                  (no_params\<lparr>top_param := Some (min 50 maxCount),
                     select_param := Some EMAIL_SELECT_FIELDS,
                     orderby_param := Some ''receivedDateTime desc'',
                     search_param :=
                       (if term = Key_query then Some ([dq] @ v @ [dq])
                        else Some (key_name term @ '':'' @ [dq] @ v @ [dq]))\<rparr>) filterTerms,
                req_maxCount = maxCount, req_extraHeaders = []\<rparr>
               (push (''kql-single-term-'' @ key_name term) s))
          else (None, s))"
  by (simp add: single_term_def first_hit_def Let_def split: option.splits)

lemma sim_strategy1:
  assumes "related same_yield api api'" and "same_state s s'"
    and "strategy1 api tok st ft mc s = (r, t)" and "strategy1 api' tok st ft mc s' = (r', t')"
  shows "r = r' \<and> same_state t t'"
  using assms(2,3,4) sim_first_hit[OF assms(1,2)]
  by (auto simp: strategy1_first_hit split: option.splits if_splits)

lemma sim_strategy2:
  assumes "related same_yield api api'" and "same_state s s'"
    and "strategy2 api ep tok st ft mc s = (r, t)" and "strategy2 api' ep tok st ft mc s' = (r', t')"
  shows "r = r' \<and> same_state t t'"
  using assms(2,3,4) sim_first_hit[OF assms(1,2)]
  by (auto simp: strategy2_first_hit split: option.splits if_splits)

lemma sim_strategy3:
  assumes "related same_yield api api'" and "same_state s s'"
    and "strategy3 api ep tok st ft mc s = (r, t)" and "strategy3 api' ep tok st ft mc s' = (r', t')"
  shows "r = r' \<and> same_state t t'"
  using assms(2,3,4) sim_first_hit[OF assms(1,2)]
  by (auto simp: strategy3_first_hit split: option.splits if_splits)

lemma sim_single_term:
  assumes "related same_yield api api'" and "same_state s s'"
    and "single_term api ep tok st ft mc k s = (r, t)"
    and "single_term api' ep tok st ft mc k s' = (r', t')"
  shows "r = r' \<and> same_state t t'"
  using assms(2,3,4) sim_first_hit[OF assms(1,2)]
  by (auto simp: single_term_first_hit split: option.splits if_splits)

lemma sim_strategy4:
  assumes "related same_yield api api'"
  shows "same_state s s' \<Longrightarrow> strategy4 api ep tok st ft mc keys s = (r, t) \<Longrightarrow>
         strategy4 api' ep tok st ft mc keys s' = (r', t') \<Longrightarrow> r = r' \<and> same_state t t'"
proof (induction keys arbitrary: s s')
  case Nil
  then show ?case by simp
next
  case (Cons k keys)
  obtain r1 u where a: "single_term api ep tok st ft mc k s = (r1, u)" by fastforce
  obtain r1' u' where a': "single_term api' ep tok st ft mc k s' = (r1', u')" by fastforce
  from sim_single_term[OF assms Cons.prems(1) a a'] have e: "r1 = r1'" and st: "same_state u u'"
    by simp_all
  show ?case
  proof (cases r1)
    case None
    with Cons.prems(2,3) a a' e
    have "strategy4 api ep tok st ft mc keys u = (r, t)"
      and "strategy4 api' ep tok st ft mc keys u' = (r', t')" by simp_all
    from Cons.IH[OF st this] show ?thesis .
  next
    case (Some found)
    with Cons.prems(2,3) a a' e st show ?thesis by auto
  qed
qed

lemma sim_front:
  assumes rel: "related same_yield api api'"
    and run: "progressiveSearch api ep tok st ft mc w = (res, s)"
    and run': "progressiveSearch api' ep tok st ft mc w = (res', s')"
  shows "(res = res' \<and> same_state s s') \<or>
         (\<exists>s4 s4'. same_state s4 s4' \<and> (res, s) = finish5 api ep tok ft mc s4 \<and>
                    (res', s') = finish5 api' ep tok ft mc s4')"
proof -
  let ?s0 = "\<lparr>searchAttempts = [], trace = [], world = w\<rparr> :: ('a, 'b) pstate"
  from run obtain r1 s1 r2 s2 r3 s3 r4 s4 r5 s5 where
    e1: "strategy1 api tok st ft mc ?s0 = (r1, s1)" and
    e2: "strategy2 api ep tok st ft mc s1 = (r2, s2)" and
    e3: "strategy3 api ep tok st ft mc s2 = (r3, s3)" and
    e4: "strategy4 api ep tok st ft mc searchPriority s3 = (r4, s4)" and
    e5: "strategy5 api ep tok ft mc s4 = (r5, s5)" and
    res: "(res, s) =
       (case r1 of Some found \<Rightarrow> (Inr found, s1) | None \<Rightarrow>
       (case r2 of Some found \<Rightarrow> (Inr found, s2) | None \<Rightarrow>
       (case r3 of Some found \<Rightarrow> (Inr found, s3) | None \<Rightarrow>
       (case r4 of Some found \<Rightarrow> (Inr found, s4) | None \<Rightarrow>
       (case r5 of Some found \<Rightarrow> (Inr found, s5) | None \<Rightarrow>
          (Inr (all_failed (searchAttempts s5)), s5))))))"
    by (rule progressiveSearch_steps)
  from run' obtain r1' s1' r2' s2' r3' s3' r4' s4' r5' s5' where
    e1': "strategy1 api' tok st ft mc ?s0 = (r1', s1')" and
    e2': "strategy2 api' ep tok st ft mc s1' = (r2', s2')" and
    e3': "strategy3 api' ep tok st ft mc s2' = (r3', s3')" and
    e4': "strategy4 api' ep tok st ft mc searchPriority s3' = (r4', s4')" and
    e5': "strategy5 api' ep tok ft mc s4' = (r5', s5')" and
    res': "(res', s') =
       (case r1' of Some found \<Rightarrow> (Inr found, s1') | None \<Rightarrow>
       (case r2' of Some found \<Rightarrow> (Inr found, s2') | None \<Rightarrow>
       (case r3' of Some found \<Rightarrow> (Inr found, s3') | None \<Rightarrow>
       (case r4' of Some found \<Rightarrow> (Inr found, s4') | None \<Rightarrow>
       (case r5' of Some found \<Rightarrow> (Inr found, s5') | None \<Rightarrow>
          (Inr (all_failed (searchAttempts s5')), s5'))))))"
    by (rule progressiveSearch_steps)
  have s0: "same_state ?s0 ?s0" by (simp add: same_state_def)
  from sim_strategy1[OF rel s0 e1 e1'] have q1: "r1 = r1'" "same_state s1 s1'" by simp_all
  from sim_strategy2[OF rel q1(2) e2 e2'] have q2: "r2 = r2'" "same_state s2 s2'" by simp_all
  from sim_strategy3[OF rel q2(2) e3 e3'] have q3: "r3 = r3'" "same_state s3 s3'" by simp_all
  from sim_strategy4[OF rel q3(2) e4 e4'] have q4: "r4 = r4'" "same_state s4 s4'" by simp_all
  show ?thesis
  proof (cases "r1 = None \<and> r2 = None \<and> r3 = None \<and> r4 = None")
    case True
    then have "(res, s) = finish5 api ep tok ft mc s4" "(res', s') = finish5 api' ep tok ft mc s4'"
      using res res' e5 e5' q1 q2 q3 q4 by (auto simp: finish5_def split: option.splits)
    with q4(2) show ?thesis by blast
  next
    case False
    then have "res = res' \<and> same_state s s'"
      using res res' q1 q2 q3 q4 by (auto split: option.splits)
    then show ?thesis ..
  qed
qed

lemma sim_finish5_kind:
  assumes "related same_kind api api'" and "same_state s4 s4'"
  shows "fst (finish5 api ep tok ft mc s4) = fst (finish5 api' ep tok ft mc s4') \<and>
         same_state (snd (finish5 api ep tok ft mc s4)) (snd (finish5 api' ep tok ft mc s4'))"
proof (cases "hasAttachments ft = Some True \<or> unreadOnly ft = Some True")
  case False
  then show ?thesis using assms(2) by (auto simp: finish5_def strategy5_def same_state_def)
next
  case True
  let ?req = "\<lparr>req_accessToken = tok, req_apiPath = ep,
                req_queryParams = addBooleanFilters
                  (no_params\<lparr>top_param := Some (min 50 mc),
                     select_param := Some EMAIL_SELECT_FIELDS,
                     orderby_param := Some ''receivedDateTime desc''\<rparr>) ft,
                req_maxCount = mc, req_extraHeaders = []\<rparr>"
  obtain out u where c: "callGraphAPIPaginated api ?req (push ''boolean-filters-only'' s4) = (out, u)"
    by fastforce
  obtain out' u' where c': "callGraphAPIPaginated api' ?req (push ''boolean-filters-only'' s4') = (out', u')"
    by fastforce
  from sim_call[OF assms c c'] have k: "same_kind out out'" and st: "same_state u u'" by simp_all
  from st have a: "searchAttempts u = searchAttempts u'" by (simp add: same_state_def)
  show ?thesis
    using True c c' k st a
    by (auto simp: finish5_def strategy5_def Let_def same_kind_def isl_def split: sum.splits)
qed

lemma sim_finish5_yield:
  assumes "related same_yield api api'" and "same_state s4 s4'"
    and "finish5 api ep tok ft mc s4 = (res, s)" and "finish5 api' ep tok ft mc s4' = (res', s')"
  shows "\<exists>found found'. res = Inr found \<and> res' = Inr found' \<and>
           found_value found' = found_value found \<and>
           strategies (searchInfo found') = strategies (searchInfo found) \<and>
           same_state s s' \<and>
           (\<not> (hasAttachments ft = Some True \<or> unreadOnly ft = Some True) \<or>
            ''boolean-filters-only'' \<notin> set (searchAttempts s) \<longrightarrow> found' = found)"
proof (cases "hasAttachments ft = Some True \<or> unreadOnly ft = Some True")
  case False
  then show ?thesis using assms(2,3,4)
    by (auto simp: finish5_def strategy5_def same_state_def)
next
  case True
  let ?req = "\<lparr>req_accessToken = tok, req_apiPath = ep,
                req_queryParams = addBooleanFilters
                  (no_params\<lparr>top_param := Some (min 50 mc),
                     select_param := Some EMAIL_SELECT_FIELDS,
                     orderby_param := Some ''receivedDateTime desc''\<rparr>) ft,
                req_maxCount = mc, req_extraHeaders = []\<rparr>"
  obtain out u where c: "callGraphAPIPaginated api ?req (push ''boolean-filters-only'' s4) = (out, u)"
    by fastforce
  obtain out' u' where c': "callGraphAPIPaginated api' ?req (push ''boolean-filters-only'' s4') = (out', u')"
    by fastforce
  from sim_call[OF assms(1,2) c c'] have k: "same_yield out out'" and st: "same_state u u'" by simp_all
  from st have a: "searchAttempts u = searchAttempts u'" by (simp add: same_state_def)
  from attempt[OF c] have tag: "''boolean-filters-only'' \<in> set (searchAttempts u)" by simp
  show ?thesis
    using True c c' k st a tag assms(3,4)
    by (auto simp: finish5_def strategy5_def Let_def same_yield_def barren_def
                   with_searchInfo_def all_failed_def split: sum.splits)
qed

lemma related_as_unauthorized: "related same_kind api (as_unauthorized api)"
  by (auto simp: related_def same_kind_def as_unauthorized_def split: prod.splits sum.splits)

lemma related_rejections_as_empty: "related same_yield api (rejections_as_empty api)"
  by (auto simp: related_def same_yield_def barren_def rejections_as_empty_def
           split: prod.splits sum.splits)

lemma progressiveSearch_resolves:
  "\<exists>found. fst (progressiveSearch api ep tok st ft mc w) = Inr found"
  using progressiveSearch_run[of api ep tok st ft mc w
          "fst (progressiveSearch api ep tok st ft mc w)"
          "snd (progressiveSearch api ep tok st ft mc w)"]
  by auto

text \<open>
  The planner does not tell the authentication failure from any other rejection: against
  the fetcher in which every rejection is \<^const>\<open>UNAUTHORIZED\<close> it returns the same
  result, with the same log and the same requests.
\<close>

lemma as_unauthorized_same:
  "(\<exists>found. fst (progressiveSearch api endpoint accessToken searchTerms filterTerms maxCount w)
              = Inr found) \<and>
   fst (progressiveSearch (as_unauthorized api) endpoint accessToken searchTerms filterTerms
          maxCount w) =
   fst (progressiveSearch api endpoint accessToken searchTerms filterTerms maxCount w) \<and>
   same_state
     (snd (progressiveSearch (as_unauthorized api) endpoint accessToken searchTerms filterTerms
             maxCount w))
     (snd (progressiveSearch api endpoint accessToken searchTerms filterTerms maxCount w))"
proof -
  let ?a = "progressiveSearch api endpoint accessToken searchTerms filterTerms maxCount w"
  let ?b = "progressiveSearch (as_unauthorized api) endpoint accessToken searchTerms filterTerms
              maxCount w"
  have run: "?a = (fst ?a, snd ?a)" and run': "?b = (fst ?b, snd ?b)" by simp_all
  have rel: "related same_kind api (as_unauthorized api)" by (rule related_as_unauthorized)
  from sim_front[OF related_kind_yield[OF rel] run run']
  have "fst ?a = fst ?b \<and> same_state (snd ?a) (snd ?b)"
  proof
    assume "fst ?a = fst ?b \<and> same_state (snd ?a) (snd ?b)"
    then show ?thesis .
  next
    assume "\<exists>s4 s4'. same_state s4 s4' \<and>
              (fst ?a, snd ?a) = finish5 api endpoint accessToken filterTerms maxCount s4 \<and>
              (fst ?b, snd ?b) =
                finish5 (as_unauthorized api) endpoint accessToken filterTerms maxCount s4'"
    then obtain s4 s4' where st: "same_state s4 s4'"
      and f: "(fst ?a, snd ?a) = finish5 api endpoint accessToken filterTerms maxCount s4"
      and f': "(fst ?b, snd ?b) =
                finish5 (as_unauthorized api) endpoint accessToken filterTerms maxCount s4'"
      by blast
    from sim_finish5_kind[OF rel st, of endpoint accessToken filterTerms maxCount]
      f[symmetric] f'[symmetric]
    show ?thesis by simp
  qed
  then have "fst ?b = fst ?a \<and> same_state (snd ?b) (snd ?a)"
    by (auto simp: same_state_def)
  with progressiveSearch_resolves[of api endpoint accessToken searchTerms filterTerms maxCount w]
  show ?thesis by simp
qed

text \<open>
  Against the fetcher in which every rejection is replaced by an empty response, the
  planner makes the same requests and returns the same items and the same log; the two
  results are equal whenever strategy 5 was not attempted.
\<close>

lemma rejections_as_empty_same:
  assumes "progressiveSearch api endpoint accessToken searchTerms filterTerms maxCount w = (res, s)"
    and "progressiveSearch (rejections_as_empty api) endpoint accessToken searchTerms filterTerms
           maxCount w = (res', s')"
  shows "\<exists>found found'. res = Inr found \<and> res' = Inr found' \<and>
           found_value found' = found_value found \<and>
           strategies (searchInfo found') = strategies (searchInfo found) \<and>
           map call_request (trace s') = map call_request (trace s) \<and>
           (''boolean-filters-only'' \<notin> set (searchAttempts s) \<longrightarrow> found' = found) \<and>
           (\<not> (hasAttachments filterTerms = Some True \<or> unreadOnly filterTerms = Some True) \<longrightarrow>
              found' = found \<and>
              (list_all (\<lambda>c. barren (call_outcome c)) (trace s) \<longrightarrow>
                 found = all_failed (searchAttempts s)))"
proof -
  have rel: "related same_yield api (rejections_as_empty api)"
    by (rule related_rejections_as_empty)
  from progressiveSearch_resolves[of api endpoint accessToken searchTerms filterTerms maxCount w]
    assms(1)
  obtain found where r: "res = Inr found" by auto
  have sim: "\<exists>found'. res' = Inr found' \<and>
           found_value found' = found_value found \<and>
           strategies (searchInfo found') = strategies (searchInfo found) \<and>
           same_state s s' \<and>
           (\<not> (hasAttachments filterTerms = Some True \<or> unreadOnly filterTerms = Some True) \<or>
            ''boolean-filters-only'' \<notin> set (searchAttempts s) \<longrightarrow> found' = found)"
    using sim_front[OF rel assms]
  proof
    assume "res = res' \<and> same_state s s'"
    with r show ?thesis by simp
  next
    assume "\<exists>s4 s4'. same_state s4 s4' \<and>
              (res, s) = finish5 api endpoint accessToken filterTerms maxCount s4 \<and>
              (res', s') =
                finish5 (rejections_as_empty api) endpoint accessToken filterTerms maxCount s4'"
    then obtain s4 s4' where st: "same_state s4 s4'"
      and f: "finish5 api endpoint accessToken filterTerms maxCount s4 = (res, s)"
      and f': "finish5 (rejections_as_empty api) endpoint accessToken filterTerms maxCount s4'
               = (res', s')"
      by metis
    from sim_finish5_yield[OF rel st f f'] r show ?thesis by auto
  qed
  have last_part: "found = all_failed (searchAttempts s)"
    if np: "\<not> (hasAttachments filterTerms = Some True \<or> unreadOnly filterTerms = Some True)"
      and ab: "list_all (\<lambda>c. barren (call_outcome c)) (trace s)"
  proof -
    from progressiveSearch_run[OF assms(1)] show ?thesis
    proof
      assume "\<exists>found. res = Inr found \<and>
                finished endpoint accessToken searchTerms filterTerms maxCount found s"
      then obtain fnd where fin: "finished endpoint accessToken searchTerms filterTerms maxCount fnd s"
        by blast
      then have ne: "trace s \<noteq> []" by (simp add: finished_def)
      then have "barren (call_outcome (last (trace s)))"
        using ab by (simp add: list_all_iff)
      with fin np show ?thesis
        by (auto simp: finished_def barren_def split: sum.splits)
    next
      assume "res = Inr (all_failed (searchAttempts s)) \<and>
              cascading endpoint accessToken searchTerms filterTerms maxCount s"
      with r show ?thesis by simp
    qed
  qed
  from sim last_part r show ?thesis by (auto simp: same_state_def)
qed

subsection \<open>The plan of a run\<close>

lemma first_hit_covers:
  "covers [tag] s (first_hit (callGraphAPIPaginated api req (push tag s)))"
proof -
  obtain out s2 where c: "callGraphAPIPaginated api req (push tag s) = (out, s2)" by fastforce
  from attempt[OF c] c show ?thesis
    by (auto simp: covers_def first_hit_def with_searchInfo_def split: sum.splits)
qed

lemma covers_skip: "covers [] s (None, s)"
  by (simp add: covers_def)

lemma strategy1_covers:
  "covers (case st_from st of
             Some f \<Rightarrow> if f \<noteq> [] \<and> includes_str f ''@'' then [''filter-from-exact''] else []
           | None \<Rightarrow> []) s (strategy1 api tok st ft mc s)"
  by (simp add: strategy1_first_hit first_hit_covers covers_skip split: option.splits)

lemma strategy2_covers:
  "covers (if truthy (st_subject st) then [''filter-subject-startswith''] else []) s
     (strategy2 api ep tok st ft mc s)"
  by (simp add: strategy2_first_hit first_hit_covers covers_skip truthy_def split: option.splits)

lemma strategy3_covers:
  "covers (if length (kqlTerms st) > 0 then [''kql-combined-search''] else []) s
     (strategy3 api ep tok st ft mc s)"
  by (simp add: strategy3_first_hit first_hit_covers covers_skip)

lemma single_term_covers:
  "covers (single_tags st [k]) s (single_term api ep tok st ft mc k s)"
  by (simp add: single_term_first_hit first_hit_covers covers_skip truthy_def single_tags_def
           split: option.splits)

lemma single_tags_Cons: "single_tags st (k # keys) = single_tags st [k] @ single_tags st keys"
  by (simp add: single_tags_def)

lemma strategy4_covers:
  "covers (single_tags st keys) s (strategy4 api ep tok st ft mc keys s)"
proof (induction keys arbitrary: s)
  case Nil
  then show ?case by (simp add: single_tags_def covers_skip)
next
  case (Cons k keys)
  obtain r1 s1 where a: "single_term api ep tok st ft mc k s = (r1, s1)" by fastforce
  from single_term_covers[of st k s api ep tok ft mc] a
  have c1: "covers (single_tags st [k]) s (r1, s1)" by simp
  show ?case
  proof (cases r1)
    case None
    with c1 have e: "searchAttempts s1 = searchAttempts s @ single_tags st [k]"
      by (simp add: covers_def)
    from Cons.IH[of s1] e a None show ?thesis
      by (auto simp: covers_def single_tags_Cons[of st k keys] split: option.splits prod.splits)
  next
    case (Some found)
    with c1 have f: "failed (searchInfo found) = None"
      and p: "prefix (searchAttempts s1) (searchAttempts s @ single_tags st [k])"
      by (simp_all add: covers_def)
    from prefix_prefix[OF p, of "single_tags st keys"]
    have "prefix (searchAttempts s1) (searchAttempts s @ single_tags st (k # keys))"
      by (simp add: single_tags_Cons[of st k keys])
    with f a Some show ?thesis by (simp add: covers_def)
  qed
qed

lemma progressiveSearch_shape:
  assumes "progressiveSearch api ep tok st ft mc w = (res, s)"
  shows "(\<exists>found. res = Inr found \<and> failed (searchInfo found) = None \<and>
            prefix (searchAttempts s) (front_plan st)) \<or>
         (\<exists>s4. searchAttempts s4 = front_plan st \<and> finish5 api ep tok ft mc s4 = (res, s))"
proof -
  let ?s0 = "\<lparr>searchAttempts = [], trace = [], world = w\<rparr> :: ('a, 'b) pstate"
  let ?p1 = "case st_from st of
             Some f \<Rightarrow> if f \<noteq> [] \<and> includes_str f ''@'' then [''filter-from-exact''] else []
           | None \<Rightarrow> []"
  let ?p2 = "if truthy (st_subject st) then [''filter-subject-startswith''] else []"
  let ?p3 = "if length (kqlTerms st) > 0 then [''kql-combined-search''] else []"
  let ?p4 = "single_tags st searchPriority"
  have fp: "front_plan st = ?p1 @ ?p2 @ ?p3 @ ?p4" by (simp add: front_plan_def)
  from assms obtain r1 s1 r2 s2 r3 s3 r4 s4 r5 s5 where
    e1: "strategy1 api tok st ft mc ?s0 = (r1, s1)" and
    e2: "strategy2 api ep tok st ft mc s1 = (r2, s2)" and
    e3: "strategy3 api ep tok st ft mc s2 = (r3, s3)" and
    e4: "strategy4 api ep tok st ft mc searchPriority s3 = (r4, s4)" and
    e5: "strategy5 api ep tok ft mc s4 = (r5, s5)" and
    res: "(res, s) =
       (case r1 of Some found \<Rightarrow> (Inr found, s1) | None \<Rightarrow>
       (case r2 of Some found \<Rightarrow> (Inr found, s2) | None \<Rightarrow>
       (case r3 of Some found \<Rightarrow> (Inr found, s3) | None \<Rightarrow>
       (case r4 of Some found \<Rightarrow> (Inr found, s4) | None \<Rightarrow>
       (case r5 of Some found \<Rightarrow> (Inr found, s5) | None \<Rightarrow>
          (Inr (all_failed (searchAttempts s5)), s5))))))"
    by (rule progressiveSearch_steps)
  have c1: "covers ?p1 ?s0 (r1, s1)" using strategy1_covers[of st ?s0 api tok ft mc] e1 by simp
  have c2: "covers ?p2 s1 (r2, s2)" using strategy2_covers[of st s1 api ep tok ft mc] e2 by simp
  have c3: "covers ?p3 s2 (r3, s3)" using strategy3_covers[of st s2 api ep tok ft mc] e3 by simp
  have c4: "covers ?p4 s3 (r4, s4)"
    using strategy4_covers[of st searchPriority s3 api ep tok ft mc] e4 by simp
  show ?thesis
  proof (cases r1)
    case (Some found)
    with c1 have "failed (searchInfo found) = None" "prefix (searchAttempts s1) ?p1"
      by (simp_all add: covers_def)
    then have "prefix (searchAttempts s1) (front_plan st)" unfolding fp by (rule_tac prefix_prefix)
    with Some res \<open>failed (searchInfo found) = None\<close> show ?thesis by auto
  next
    case n1: None
    with c1 have a1: "searchAttempts s1 = ?p1" by (simp add: covers_def)
    show ?thesis
    proof (cases r2)
      case (Some found)
      with c2 a1 have f: "failed (searchInfo found) = None"
        and "prefix (searchAttempts s2) (?p1 @ ?p2)" by (simp_all add: covers_def)
      then have "prefix (searchAttempts s2) ((?p1 @ ?p2) @ ?p3 @ ?p4)" by (rule_tac prefix_prefix)
      then have "prefix (searchAttempts s2) (front_plan st)" unfolding fp by simp
      with Some n1 res f show ?thesis by auto
    next
      case n2: None
      with c2 a1 have a2: "searchAttempts s2 = ?p1 @ ?p2" by (simp add: covers_def)
      show ?thesis
      proof (cases r3)
        case (Some found)
        with c3 a2 have f: "failed (searchInfo found) = None"
          and "prefix (searchAttempts s3) ((?p1 @ ?p2) @ ?p3)" by (simp_all add: covers_def)
        then have "prefix (searchAttempts s3) (((?p1 @ ?p2) @ ?p3) @ ?p4)" by (rule_tac prefix_prefix)
        then have "prefix (searchAttempts s3) (front_plan st)" unfolding fp by simp
        with Some n1 n2 res f show ?thesis by auto
      next
        case n3: None
        with c3 a2 have a3: "searchAttempts s3 = (?p1 @ ?p2) @ ?p3" by (simp add: covers_def)
        show ?thesis
        proof (cases r4)
          case (Some found)
          with c4 a3 have f: "failed (searchInfo found) = None"
            and "prefix (searchAttempts s4) (((?p1 @ ?p2) @ ?p3) @ ?p4)" by (simp_all add: covers_def)
          then have "prefix (searchAttempts s4) (front_plan st)" unfolding fp by simp
          with Some n1 n2 n3 res f show ?thesis by auto
        next
          case n4: None
          with c4 a3 have "searchAttempts s4 = ((?p1 @ ?p2) @ ?p3) @ ?p4" by (simp add: covers_def)
          then have a4: "searchAttempts s4 = front_plan st" unfolding fp by simp
          have "finish5 api ep tok ft mc s4 = (res, s)"
            using res n1 n2 n3 n4 e5 by (auto simp: finish5_def split: option.splits)
          with a4 show ?thesis by blast
        qed
      qed
    qed
  qed
qed

lemma finish5_skip:
  "\<not> (hasAttachments ft = Some True \<or> unreadOnly ft = Some True) \<Longrightarrow>
   finish5 api ep tok ft mc s4 = (Inr (all_failed (searchAttempts s4)), s4)"
  by (simp add: finish5_def strategy5_def)

lemma finish5_call:
  assumes "hasAttachments ft = Some True \<or> unreadOnly ft = Some True"
    and "finish5 api ep tok ft mc s4 = (res, s)"
  shows "\<exists>c. trace s = trace s4 @ [c] \<and>
           searchAttempts s = searchAttempts s4 @ [''boolean-filters-only''] \<and>
           res = (case call_outcome c of
                    Inl e \<Rightarrow> Inr (all_failed (searchAttempts s))
                  | Inr response \<Rightarrow> Inr (with_searchInfo response (searchAttempts s)))"
proof -
  let ?req = "\<lparr>req_accessToken = tok, req_apiPath = ep,
                req_queryParams = addBooleanFilters
                  (no_params\<lparr>top_param := Some (min 50 mc),
                     select_param := Some EMAIL_SELECT_FIELDS,
                     orderby_param := Some ''receivedDateTime desc''\<rparr>) ft,
                req_maxCount = mc, req_extraHeaders = []\<rparr>"
  obtain out u where c: "callGraphAPIPaginated api ?req (push ''boolean-filters-only'' s4) = (out, u)"
    by fastforce
  from attempt[OF c] assms c show ?thesis
    by (auto simp: finish5_def strategy5_def Let_def split: sum.splits)
qed

lemma front_plan_tags: "''boolean-filters-only'' \<notin> set (front_plan st)"
  by (auto simp: front_plan_def single_tags_def searchPriority_def split: option.splits if_splits)

lemma prefix_nth: "prefix xs ys \<Longrightarrow> j < length xs \<Longrightarrow> xs ! j = ys ! j"
  by (auto simp: prefix_def nth_append)

lemma prefix_length: "prefix xs ys \<Longrightarrow> length xs \<le> length ys"
  by (auto simp: prefix_def)

text \<open>The log of a run is a prefix of the plan, and each call carries the tag the plan has at its place.\<close>

lemma log_prefix_plan:
  assumes "progressiveSearch api ep tok st ft mc w = (res, s)"
  shows "prefix (searchAttempts s) (plan st ft)"
  using progressiveSearch_shape[OF assms]
proof
  assume "\<exists>found. res = Inr found \<and> failed (searchInfo found) = None \<and>
            prefix (searchAttempts s) (front_plan st)"
  then show ?thesis by (auto simp: plan_def)
next
  assume "\<exists>s4. searchAttempts s4 = front_plan st \<and> finish5 api ep tok ft mc s4 = (res, s)"
  then obtain s4 where a: "searchAttempts s4 = front_plan st"
    and f: "finish5 api ep tok ft mc s4 = (res, s)" by blast
  show ?thesis
  proof (cases "hasAttachments ft = Some True \<or> unreadOnly ft = Some True")
    case True
    from finish5_call[OF True f] a True show ?thesis by (auto simp: plan_def)
  next
    case False
    from finish5_skip[OF False, of api ep tok mc s4] f a False show ?thesis
      by (auto simp: plan_def)
  qed
qed

lemma call_tag_plan:
  assumes "progressiveSearch api ep tok st ft mc w = (res, s)" and "j < length (trace s)"
  shows "j < length (plan st ft) \<and> last (call_log (trace s ! j)) = plan st ft ! j"
proof -
  have lg: "logged s" by (rule progressiveSearch_invariants(1)[OF assms(1)])
  have p: "prefix (searchAttempts s) (plan st ft)" by (rule log_prefix_plan[OF assms(1)])
  have j: "j < length (searchAttempts s)" using logged_length[OF lg] assms(2) by simp
  from logged_tag[OF lg assms(2)] prefix_nth[OF p j] prefix_length[OF p] j
  show ?thesis by simp
qed

text \<open>A barren call of strategies 1 to 4 is followed by the next call of the plan, if there is one.\<close>

lemma barren_proceeds:
  assumes run: "progressiveSearch api ep tok st ft mc w = (res, s)"
    and i: "i < length (trace s)"
    and b: "barren (call_outcome (trace s ! i))"
    and t: "last (call_log (trace s ! i)) \<noteq> ''boolean-filters-only''"
  shows "(Suc i < length (plan st ft) \<longrightarrow> Suc i < length (trace s)) \<and>
         (Suc i = length (plan st ft) \<longrightarrow> res = Inr (all_failed (plan st ft)))"
proof -
  have lg: "logged s" by (rule progressiveSearch_invariants(1)[OF run])
  have len: "length (trace s) = length (searchAttempts s)" by (rule logged_length[OF lg])
  have tag: "searchAttempts s ! i \<noteq> ''boolean-filters-only''"
    using logged_tag[OF lg i] t by simp
  from progressiveSearch_shape[OF run] show ?thesis
  proof
    assume "\<exists>found. res = Inr found \<and> failed (searchInfo found) = None \<and>
              prefix (searchAttempts s) (front_plan st)"
    then obtain found where r: "res = Inr found" and f: "failed (searchInfo found) = None"
      and p: "prefix (searchAttempts s) (front_plan st)" by blast
    have le: "length (searchAttempts s) \<le> length (plan st ft)"
      using prefix_length[OF p] by (simp add: plan_def)
    from progressiveSearch_run[OF run] r f
    have fin: "finished ep tok st ft mc found s" by (auto simp: all_failed_def)
    then have ne: "trace s \<noteq> []"
      and bl: "list_all (\<lambda>c. barren (call_outcome c)) (butlast (trace s))"
      by (simp_all add: finished_def)
    have "searchAttempts s \<noteq> []" using ne len by auto
    then have "last (searchAttempts s) \<in> set (searchAttempts s)" by (rule last_in_set)
    then have "last (searchAttempts s) \<in> set (front_plan st)"
      using p by (auto simp: prefix_def)
    then have nb: "last (searchAttempts s) \<noteq> ''boolean-filters-only''"
      using front_plan_tags[of st] by auto
    have "\<not> barren (call_outcome (last (trace s)))"
      using fin nb by (auto simp: finished_def barren_def split: sum.splits)
    then have "trace s ! i \<noteq> last (trace s)" using b by auto
    then have "i \<noteq> length (trace s) - 1" using ne by (auto simp: last_conv_nth)
    with i have "Suc i < length (trace s)" by simp
    with le len show ?thesis by simp
  next
    assume "\<exists>s4. searchAttempts s4 = front_plan st \<and> finish5 api ep tok ft mc s4 = (res, s)"
    then obtain s4 where a: "searchAttempts s4 = front_plan st"
      and f: "finish5 api ep tok ft mc s4 = (res, s)" by blast
    show ?thesis
    proof (cases "hasAttachments ft = Some True \<or> unreadOnly ft = Some True")
      case False
      from finish5_skip[OF False, of api ep tok mc s4] f a False len show ?thesis
        by (auto simp: plan_def)
    next
      case True
      from finish5_call[OF True f] a True
      have pl: "searchAttempts s = plan st ft" by (auto simp: plan_def)
      have "Suc i \<noteq> length (plan st ft)"
      proof
        assume "Suc i = length (plan st ft)"
        then have "i = length (front_plan st)" using True by (simp add: plan_def)
        then have "plan st ft ! i = ''boolean-filters-only''" using True by (simp add: plan_def)
        with tag pl show False by simp
      qed
      with pl len show ?thesis by simp
    qed
  qed
qed

text \<open>The call of strategy 5 is the last one, and its outcome decides the result.\<close>

lemma strategy5_outcome:
  assumes run: "progressiveSearch api ep tok st ft mc w = (res, s)"
    and i: "i < length (trace s)"
    and t: "last (call_log (trace s ! i)) = ''boolean-filters-only''"
  shows "Suc i = length (trace s) \<and> searchAttempts s = plan st ft \<and>
         res = (case call_outcome (trace s ! i) of
                  Inl e \<Rightarrow> Inr (all_failed (searchAttempts s))
                | Inr response \<Rightarrow> Inr (with_searchInfo response (searchAttempts s)))"
proof -
  have lg: "logged s" by (rule progressiveSearch_invariants(1)[OF run])
  have len: "length (trace s) = length (searchAttempts s)" by (rule logged_length[OF lg])
  have tag: "searchAttempts s ! i = ''boolean-filters-only''"
    using logged_tag[OF lg i] t by simp
  then have mem: "''boolean-filters-only'' \<in> set (searchAttempts s)"
    using i len by (metis nth_mem)
  from progressiveSearch_shape[OF run] show ?thesis
  proof
    assume "\<exists>found. res = Inr found \<and> failed (searchInfo found) = None \<and>
              prefix (searchAttempts s) (front_plan st)"
    then have "set (searchAttempts s) \<subseteq> set (front_plan st)" by (auto simp: prefix_def)
    with mem front_plan_tags[of st] show ?thesis by auto
  next
    assume "\<exists>s4. searchAttempts s4 = front_plan st \<and> finish5 api ep tok ft mc s4 = (res, s)"
    then obtain s4 where a: "searchAttempts s4 = front_plan st"
      and f: "finish5 api ep tok ft mc s4 = (res, s)" by blast
    show ?thesis
    proof (cases "hasAttachments ft = Some True \<or> unreadOnly ft = Some True")
      case False
      from finish5_skip[OF False, of api ep tok mc s4] f a mem front_plan_tags[of st]
      show ?thesis by auto
    next
      case True
      from finish5_call[OF True f] obtain c where
        tr: "trace s = trace s4 @ [c]" and
        at: "searchAttempts s = searchAttempts s4 @ [''boolean-filters-only'']" and
        r: "res = (case call_outcome c of
                    Inl e \<Rightarrow> Inr (all_failed (searchAttempts s))
                  | Inr response \<Rightarrow> Inr (with_searchInfo response (searchAttempts s)))" by blast
      have l4: "length (trace s4) = length (front_plan st)" using len tr at a by simp
      have "i = length (front_plan st)"
      proof (rule ccontr)
        assume "i \<noteq> length (front_plan st)"
        with i tr l4 have "i < length (front_plan st)" by simp
        then have "searchAttempts s ! i \<in> set (front_plan st)" using at a by (simp add: nth_append)
        with tag front_plan_tags[of st] show False by simp
      qed
      with tr l4 have "trace s ! i = c" "Suc i = length (trace s)"
        by (simp_all add: nth_append)
      with r at a True show ?thesis by (simp add: plan_def)
    qed
  qed
qed

text \<open>
  Claim C2, as the code has it. A call rejected with \<^const>\<open>UNAUTHORIZED\<close> is
  absorbed: the planner still returns a response. The rejected call is the one the plan
  has at its place; if the plan holds a further strategy, that strategy is attempted
  next, and if the rejected call was the last of the plan, the result is the empty list
  with the whole plan as log and \<^verbatim>\<open>failed: true\<close>. Nor does the planner tell
  this rejection from another: against the fetcher in which every rejection is
  \<^const>\<open>UNAUTHORIZED\<close> it returns the same result, with the same log and requests.
\<close>

theorem unauthorized_absorbed:
  assumes "progressiveSearch api endpoint accessToken searchTerms filterTerms maxCount w = (res, s)"
    and "i < length (trace s)"
    and "call_outcome (trace s ! i) = Inl UNAUTHORIZED"
  shows "(\<exists>found. res = Inr found) \<and>
         i < length (plan searchTerms filterTerms) \<and>
         last (call_log (trace s ! i)) = plan searchTerms filterTerms ! i \<and>
         (Suc i < length (plan searchTerms filterTerms) \<longrightarrow>
            Suc i < length (trace s) \<and>
            last (call_log (trace s ! Suc i)) = plan searchTerms filterTerms ! Suc i) \<and>
         (Suc i = length (plan searchTerms filterTerms) \<longrightarrow>
            res = Inr (all_failed (plan searchTerms filterTerms))) \<and>
         fst (progressiveSearch (as_unauthorized api) endpoint accessToken searchTerms filterTerms
                maxCount w) = res \<and>
         same_state
           (snd (progressiveSearch (as_unauthorized api) endpoint accessToken searchTerms
                   filterTerms maxCount w)) s"
proof -
  have b: "barren (call_outcome (trace s ! i))" using assms(3) by (simp add: barren_def)
  have lg: "logged s" by (rule progressiveSearch_invariants(1)[OF assms(1)])
  have len: "length (trace s) = length (searchAttempts s)" by (rule logged_length[OF lg])
  have here: "i < length (plan searchTerms filterTerms) \<and>
              last (call_log (trace s ! i)) = plan searchTerms filterTerms ! i"
    by (rule call_tag_plan[OF assms(1,2)])
  have go: "(Suc i < length (plan searchTerms filterTerms) \<longrightarrow> Suc i < length (trace s)) \<and>
            (Suc i = length (plan searchTerms filterTerms) \<longrightarrow>
               res = Inr (all_failed (plan searchTerms filterTerms)))"
  proof (cases "last (call_log (trace s ! i)) = ''boolean-filters-only''")
    case False
    from barren_proceeds[OF assms(1,2) b False] show ?thesis .
  next
    case True
    from strategy5_outcome[OF assms(1,2) True] assms(3) len show ?thesis by simp
  qed
  have nxt: "last (call_log (trace s ! Suc i)) = plan searchTerms filterTerms ! Suc i"
    if "Suc i < length (trace s)"
    using call_tag_plan[OF assms(1) that] by simp
  have sim: "fst (progressiveSearch (as_unauthorized api) endpoint accessToken searchTerms
                    filterTerms maxCount w) = res \<and>
             same_state
               (snd (progressiveSearch (as_unauthorized api) endpoint accessToken searchTerms
                       filterTerms maxCount w)) s"
    using as_unauthorized_same[of api endpoint accessToken searchTerms filterTerms maxCount w]
      assms(1) by simp
  have "\<exists>found. res = Inr found"
    using progressiveSearch_resolves[of api endpoint accessToken searchTerms filterTerms maxCount w]
      assms(1) by simp
  with here go nxt sim show ?thesis by blast
qed

text \<open>
  The search for \<^verbatim>\<open>{from: "a@b.com"}\<close> with \<^verbatim>\<open>{unreadOnly: true}\<close> against
  a fetcher that rejects every call as unauthorized: after the first call strategy 3 is
  attempted, and after the fourth call, that of strategy 5, the result is flagged as
  failed.
\<close>

theorem unauthorized_absorbed_witness:
  "plan from_only unread_only =
     [''filter-from-exact'', ''kql-combined-search'', ''kql-single-term-from'',
      ''boolean-filters-only''] \<and>
   length (trace (snd unauthorized_run)) = 4 \<and>
   call_outcome (trace (snd unauthorized_run) ! 0) = Inl UNAUTHORIZED \<and>
   last (call_log (trace (snd unauthorized_run) ! 1)) = ''kql-combined-search'' \<and>
   call_outcome (trace (snd unauthorized_run) ! 3) = Inl UNAUTHORIZED \<and>
   last (call_log (trace (snd unauthorized_run) ! 3)) = ''boolean-filters-only'' \<and>
   fst unauthorized_run =
     Inr (all_failed [''filter-from-exact'', ''kql-combined-search'', ''kql-single-term-from'',
                      ''boolean-filters-only''])"
proof -
  have run: "progressiveSearch unauthorized_api inbox ''token'' from_only unread_only 10 0 =
             (fst unauthorized_run, snd unauthorized_run)"
    by (simp add: unauthorized_run_def)
  have pl: "plan from_only unread_only =
     [''filter-from-exact'', ''kql-combined-search'', ''kql-single-term-from'',
      ''boolean-filters-only'']" by code_simp
  have len: "length (trace (snd unauthorized_run)) = 4" by code_simp
  have i0: "0 < length (trace (snd unauthorized_run))"
    and i3: "3 < length (trace (snd unauthorized_run))" using len by simp_all
  have o0: "call_outcome (trace (snd unauthorized_run) ! 0) = Inl UNAUTHORIZED" by code_simp
  have o3: "call_outcome (trace (snd unauthorized_run) ! 3) = Inl UNAUTHORIZED" by code_simp
  from unauthorized_absorbed[OF run i0 o0] unauthorized_absorbed[OF run i3 o3] pl len o0 o3
  show ?thesis by simp
qed

text \<open>
  Claim C2 as stated fails: against a fetcher that rejects every call with
  \<^const>\<open>UNAUTHORIZED\<close>, the search for \<^verbatim>\<open>{from: "a@b.com"}\<close> with
  \<^verbatim>\<open>{unreadOnly: true}\<close> goes through strategies 1, 3, 4 and 5 and returns the
  empty result flagged as failed; the failure is not passed on.
\<close>

theorem unauthorized_counterexample:
  "length (trace (snd unauthorized_run)) = 4 \<and>
   call_outcome (trace (snd unauthorized_run) ! 0) = Inl UNAUTHORIZED \<and>
   call_outcome (trace (snd unauthorized_run) ! 1) = Inl UNAUTHORIZED \<and>
   call_outcome (trace (snd unauthorized_run) ! 2) = Inl UNAUTHORIZED \<and>
   call_outcome (trace (snd unauthorized_run) ! 3) = Inl UNAUTHORIZED \<and>
   fst unauthorized_run =
     Inr \<lparr>found_value = [], found_count = None,
          searchInfo =
            \<lparr>strategies = [''filter-from-exact'', ''kql-combined-search'',
                           ''kql-single-term-from'', ''boolean-filters-only''],
             failed = Some True\<rparr>\<rparr> \<and>
   fst unauthorized_run \<noteq> Inl UNAUTHORIZED"
  by code_simp

text \<open>
  Claim C3, as the code has it. The planner always returns a response, and its log is
  a prefix of the plan. A call of strategies 1 to 4 that is rejected or empty is followed
  by the next strategy of the plan, and if it was the last of the plan the result is the
  empty list with the whole plan as log and \<^verbatim>\<open>failed: true\<close>. The call of
  strategy 5 is the last call: rejected, it gives that failed result; resolved, its
  response is returned as it is, also when empty, without the flag. Against the fetcher
  in which every rejection is replaced by an empty response the planner makes the same
  requests and returns the same items and the same log, and the same result whenever
  strategy 5 was not attempted; with no boolean flag true and every call rejected or
  empty, the result is the failed one.
\<close>

theorem rejections_absorbed:
  assumes "progressiveSearch api endpoint accessToken searchTerms filterTerms maxCount w = (res, s)"
    and "progressiveSearch (rejections_as_empty api) endpoint accessToken searchTerms filterTerms
           maxCount w = (res', s')"
  shows "(\<exists>found found'. res = Inr found \<and> res' = Inr found' \<and>
           found_value found' = found_value found \<and>
           strategies (searchInfo found') = strategies (searchInfo found) \<and>
           map call_request (trace s') = map call_request (trace s) \<and>
           (''boolean-filters-only'' \<notin> set (searchAttempts s) \<longrightarrow> found' = found) \<and>
           (\<not> (hasAttachments filterTerms = Some True \<or> unreadOnly filterTerms = Some True) \<longrightarrow>
              found' = found \<and>
              (list_all (\<lambda>c. barren (call_outcome c)) (trace s) \<longrightarrow>
                 found = all_failed (searchAttempts s)))) \<and>
         prefix (searchAttempts s) (plan searchTerms filterTerms) \<and>
         (i < length (trace s) \<and> barren (call_outcome (trace s ! i)) \<and>
          last (call_log (trace s ! i)) \<noteq> ''boolean-filters-only'' \<longrightarrow>
            (Suc i < length (plan searchTerms filterTerms) \<longrightarrow>
               Suc i < length (trace s) \<and>
               last (call_log (trace s ! Suc i)) = plan searchTerms filterTerms ! Suc i) \<and>
            (Suc i = length (plan searchTerms filterTerms) \<longrightarrow>
               res = Inr (all_failed (plan searchTerms filterTerms)))) \<and>
         (i < length (trace s) \<and>
          last (call_log (trace s ! i)) = ''boolean-filters-only'' \<longrightarrow>
            Suc i = length (trace s) \<and>
            res = (case call_outcome (trace s ! i) of
                     Inl e \<Rightarrow> Inr (all_failed (plan searchTerms filterTerms))
                   | Inr response \<Rightarrow>
                       Inr (with_searchInfo response (plan searchTerms filterTerms))))"
proof -
  have p: "prefix (searchAttempts s) (plan searchTerms filterTerms)"
    by (rule log_prefix_plan[OF assms(1)])
  have one: "(Suc i < length (plan searchTerms filterTerms) \<longrightarrow>
               Suc i < length (trace s) \<and>
               last (call_log (trace s ! Suc i)) = plan searchTerms filterTerms ! Suc i) \<and>
            (Suc i = length (plan searchTerms filterTerms) \<longrightarrow>
               res = Inr (all_failed (plan searchTerms filterTerms)))"
    if "i < length (trace s)" and "barren (call_outcome (trace s ! i))"
      and "last (call_log (trace s ! i)) \<noteq> ''boolean-filters-only''"
  proof -
    have nxt: "last (call_log (trace s ! Suc i)) = plan searchTerms filterTerms ! Suc i"
      if "Suc i < length (trace s)"
      using call_tag_plan[OF assms(1) that] by simp
    from barren_proceeds[OF assms(1) \<open>i < length (trace s)\<close>
        \<open>barren (call_outcome (trace s ! i))\<close>
        \<open>last (call_log (trace s ! i)) \<noteq> ''boolean-filters-only''\<close>] nxt
    show ?thesis by blast
  qed
  have two: "Suc i = length (trace s) \<and>
            res = (case call_outcome (trace s ! i) of
                     Inl e \<Rightarrow> Inr (all_failed (plan searchTerms filterTerms))
                   | Inr response \<Rightarrow>
                       Inr (with_searchInfo response (plan searchTerms filterTerms)))"
    if "i < length (trace s)" and "last (call_log (trace s ! i)) = ''boolean-filters-only''"
    using strategy5_outcome[OF assms(1) that] by (auto split: sum.splits)
  from rejections_as_empty_same[OF assms] p one two show ?thesis by blast
qed

text \<open>
  The search for \<^verbatim>\<open>{from: "a@b.com"}\<close> against a fetcher that answers 400 to
  every call, without filters and with \<^verbatim>\<open>{unreadOnly: true}\<close>, and the same
  search against the fetcher that answers every call with no item.
\<close>

theorem rejections_absorbed_witness:
  "\<not> (hasAttachments no_filters = Some True \<or> unreadOnly no_filters = Some True) \<and>
   ''boolean-filters-only'' \<notin> set (searchAttempts (snd failing_from_run)) \<and>
   list_all (\<lambda>c. barren (call_outcome c)) (trace (snd failing_from_run)) \<and>
   length (trace (snd failing_from_run)) = 3 \<and>
   fst failing_from_run =
     Inr \<lparr>found_value = [], found_count = None,
          searchInfo =
            \<lparr>strategies = [''filter-from-exact'', ''kql-combined-search'', ''kql-single-term-from''],
             failed = Some True\<rparr>\<rparr> \<and>
   fst absorbed_from_run = fst failing_from_run \<and>
   plan from_only unread_only =
     [''filter-from-exact'', ''kql-combined-search'', ''kql-single-term-from'',
      ''boolean-filters-only''] \<and>
   length (trace (snd failing_both_run)) = 4 \<and>
   barren (call_outcome (trace (snd failing_both_run) ! 0)) \<and>
   last (call_log (trace (snd failing_both_run) ! 0)) \<noteq> ''boolean-filters-only'' \<and>
   last (call_log (trace (snd failing_both_run) ! 1)) = ''kql-combined-search'' \<and>
   last (call_log (trace (snd failing_both_run) ! 3)) = ''boolean-filters-only'' \<and>
   call_outcome (trace (snd failing_both_run) ! 3) = Inl (ApiFailed 400 ''Bad Request'') \<and>
   fst failing_both_run =
     Inr \<lparr>found_value = [], found_count = None,
          searchInfo =
            \<lparr>strategies = [''filter-from-exact'', ''kql-combined-search'',
                           ''kql-single-term-from'', ''boolean-filters-only''],
             failed = Some True\<rparr>\<rparr> \<and>
   last (call_log (trace (snd absorbed_both_run) ! 3)) = ''boolean-filters-only'' \<and>
   call_outcome (trace (snd absorbed_both_run) ! 3) =
     Inr \<lparr>resp_value = [], odata_count = Some 0\<rparr> \<and>
   fst absorbed_both_run =
     Inr \<lparr>found_value = [], found_count = Some 0,
          searchInfo =
            \<lparr>strategies = [''filter-from-exact'', ''kql-combined-search'',
                           ''kql-single-term-from'', ''boolean-filters-only''],
             failed = None\<rparr>\<rparr>"
proof -
  have run: "progressiveSearch failing_api inbox ''token'' from_only no_filters 10 0 =
             (fst failing_from_run, snd failing_from_run)"
    by (simp add: failing_from_run_def)
  have run': "progressiveSearch (rejections_as_empty failing_api) inbox ''token'' from_only
                no_filters 10 0 = (fst absorbed_from_run, snd absorbed_from_run)"
    by (simp add: absorbed_from_run_def)
  have np: "\<not> (hasAttachments no_filters = Some True \<or> unreadOnly no_filters = Some True)"
    by (simp add: no_filters_def)
  have ab: "list_all (\<lambda>c. barren (call_outcome c)) (trace (snd failing_from_run))"
    by code_simp
  have len: "length (trace (snd failing_from_run)) = 3" by code_simp
  have log: "searchAttempts (snd failing_from_run) =
     [''filter-from-exact'', ''kql-combined-search'', ''kql-single-term-from'']" by code_simp
  from rejections_absorbed[OF run run', where i = 0] np ab len log
  have first: "\<not> (hasAttachments no_filters = Some True \<or> unreadOnly no_filters = Some True) \<and>
   ''boolean-filters-only'' \<notin> set (searchAttempts (snd failing_from_run)) \<and>
   list_all (\<lambda>c. barren (call_outcome c)) (trace (snd failing_from_run)) \<and>
   length (trace (snd failing_from_run)) = 3 \<and>
   fst failing_from_run =
     Inr \<lparr>found_value = [], found_count = None,
          searchInfo =
            \<lparr>strategies = [''filter-from-exact'', ''kql-combined-search'', ''kql-single-term-from''],
             failed = Some True\<rparr>\<rparr> \<and>
   fst absorbed_from_run = fst failing_from_run"
    by (auto simp: all_failed_def)
  have pl: "plan from_only unread_only =
     [''filter-from-exact'', ''kql-combined-search'', ''kql-single-term-from'',
      ''boolean-filters-only'']" by code_simp
  have runb: "progressiveSearch failing_api inbox ''token'' from_only unread_only 10 0 =
              (fst failing_both_run, snd failing_both_run)"
    by (simp add: failing_both_run_def)
  have runb': "progressiveSearch (rejections_as_empty failing_api) inbox ''token'' from_only
                 unread_only 10 0 = (fst absorbed_both_run, snd absorbed_both_run)"
    by (simp add: absorbed_both_run_def)
  obtain res2 s2 where runb'': "progressiveSearch
       (rejections_as_empty (rejections_as_empty failing_api)) inbox ''token'' from_only
       unread_only 10 0 = (res2, s2 :: (nat, nat) pstate)" by fastforce
  have lenb: "length (trace (snd failing_both_run)) = 4" by code_simp
  have lenb': "length (trace (snd absorbed_both_run)) = 4" by code_simp
  have b0: "barren (call_outcome (trace (snd failing_both_run) ! 0))" by code_simp
  have t0: "last (call_log (trace (snd failing_both_run) ! 0)) \<noteq> ''boolean-filters-only''"
    by code_simp
  have t3: "last (call_log (trace (snd failing_both_run) ! 3)) = ''boolean-filters-only''"
    by code_simp
  have o3: "call_outcome (trace (snd failing_both_run) ! 3) = Inl (ApiFailed 400 ''Bad Request'')"
    by code_simp
  have t3': "last (call_log (trace (snd absorbed_both_run) ! 3)) = ''boolean-filters-only''"
    by code_simp
  have o3': "call_outcome (trace (snd absorbed_both_run) ! 3) =
     Inr \<lparr>resp_value = [], odata_count = Some 0\<rparr>" by code_simp
  from rejections_absorbed[OF runb runb', where i = 0] lenb b0 t0 pl
  have second: "last (call_log (trace (snd failing_both_run) ! 1)) = ''kql-combined-search''"
    by simp
  from rejections_absorbed[OF runb runb', where i = 3] lenb t3 o3 pl
  have third: "fst failing_both_run =
     Inr \<lparr>found_value = [], found_count = None,
          searchInfo =
            \<lparr>strategies = [''filter-from-exact'', ''kql-combined-search'',
                           ''kql-single-term-from'', ''boolean-filters-only''],
             failed = Some True\<rparr>\<rparr>"
    by (simp add: all_failed_def)
  from rejections_absorbed[OF runb' runb'', where i = 3] lenb' t3' o3' pl
  have fourth: "fst absorbed_both_run =
     Inr \<lparr>found_value = [], found_count = Some 0,
          searchInfo =
            \<lparr>strategies = [''filter-from-exact'', ''kql-combined-search'',
                           ''kql-single-term-from'', ''boolean-filters-only''],
             failed = None\<rparr>\<rparr>"
    by (simp add: with_searchInfo_def)
  from first pl lenb b0 t0 second t3 o3 third t3' o3' fourth show ?thesis by simp
qed

text \<open>
  Claim C3 as stated fails in strategy 5: with \<^verbatim>\<open>{unreadOnly: true}\<close> alone, a
  rejected call gives the result flagged \<^verbatim>\<open>failed: true\<close>, an empty response
  gives the result without the flag.
\<close>

theorem rejections_counterexample:
  "fst failing_run =
     Inr \<lparr>found_value = [], found_count = None,
          searchInfo = \<lparr>strategies = [''boolean-filters-only''], failed = Some True\<rparr>\<rparr> \<and>
   fst absorbed_run =
     Inr \<lparr>found_value = [], found_count = Some 0,
          searchInfo = \<lparr>strategies = [''boolean-filters-only''], failed = None\<rparr>\<rparr> \<and>
   fst failing_run \<noteq> fst absorbed_run"
  by code_simp

section \<open>Folder resolution\<close>

lemma find_folder_none:
  "list_all (\<lambda>f. toLowerCase (displayName f) \<noteq> lowerName) folders \<Longrightarrow>
   find_folder lowerName folders = None"
  by (simp add: find_folder_def find_None_iff list_all_iff)

lemma no_match_listing:
  assumes "shows_no_match graph folderName" and "callGraphAPI graph req s = (Inr (Some v), s')"
    and "filter_param (gr_queryParams req) = None"
  shows "list_all (\<lambda>f. toLowerCase (displayName f) \<noteq> toLowerCase folderName) v"
proof -
  from assms(2) have "fst (graph req (remote s)) = Inr (Some v)"
    by (auto simp: callGraphAPI_def split: prod.splits)
  with assms(1)[unfolded shows_no_match_def, rule_format, of req "remote s"] assms(3)
  show ?thesis by simp
qed

lemma no_match_exact:
  assumes "shows_no_match graph folderName" and "callGraphAPI graph req s = (Inr (Some v), s')"
    and "filter_param (gr_queryParams req) \<noteq> None"
  shows "v = []"
proof -
  from assms(2) have "fst (graph req (remote s)) = Inr (Some v)"
    by (auto simp: callGraphAPI_def split: prod.splits)
  with assms(1)[unfolded shows_no_match_def, rule_format, of req "remote s"] assms(3)
  show ?thesis by simp
qed

lemma childFolders_no_match:
  assumes "shows_no_match graph folderName"
  shows "childFolders graph tok parents s = (kids, s') \<Longrightarrow>
         list_all (\<lambda>f. toLowerCase (displayName f) \<noteq> toLowerCase folderName) (concat kids)"
proof (induction parents arbitrary: s kids s')
  case Nil
  then show ?case by simp
next
  case (Cons p parents)
  let ?req = "\<lparr>gr_accessToken = tok,
               gr_apiPath = ''me/mailFolders/'' @ folder_id p @ ''/childFolders'',
               gr_queryParams = no_params\<lparr>select_param := Some FOLDER_SELECT_FIELDS\<rparr>\<rparr>"
  obtain out s1 where c: "callGraphAPI graph ?req s = (out, s1)" by fastforce
  obtain others s2 where r: "childFolders graph tok parents s1 = (others, s2)" by fastforce
  from Cons.IH[OF r]
  have ih: "list_all (\<lambda>f. toLowerCase (displayName f) \<noteq> toLowerCase folderName) (concat others)" .
  have first: "list_all (\<lambda>f. toLowerCase (displayName f) \<noteq> toLowerCase folderName) v"
    if "out = Inr (Some v)" for v
    using no_match_listing[OF assms, of ?req s v s1] c that by simp
  from Cons.prems c r ih first show ?case
    by (auto split: sum.splits option.splits)
qed

lemma getAllFolders_no_match:
  assumes "shows_no_match graph folderName" and "getAllFolders graph tok s = (folders, s')"
  shows "list_all (\<lambda>f. toLowerCase (displayName f) \<noteq> toLowerCase folderName) folders"
proof -
  let ?req = "\<lparr>gr_accessToken = tok, gr_apiPath = ''me/mailFolders'',
               gr_queryParams = no_params\<lparr>top_param := Some 100,
                                  select_param := Some FOLDER_SELECT_FIELDS\<rparr>\<rparr>"
  obtain out s1 where c: "callGraphAPI graph ?req s = (out, s1)" by fastforce
  show ?thesis
  proof (cases out)
    case (Inl e)
    with assms(2) c show ?thesis by (simp add: getAllFolders_def)
  next
    case (Inr val)
    show ?thesis
    proof (cases val)
      case None
      with Inr assms(2) c show ?thesis by (simp add: getAllFolders_def)
    next
      case (Some v)
      obtain kids s2 where k: "childFolders graph tok (filter (\<lambda>f. childFolderCount f > 0) v) s1
                               = (kids, s2)" by fastforce
      have top: "list_all (\<lambda>f. toLowerCase (displayName f) \<noteq> toLowerCase folderName) v"
        using no_match_listing[OF assms(1), of ?req s v s1] c Inr Some by simp
      from childFolders_no_match[OF assms(1) k] top assms(2) c Inr Some k
      show ?thesis by (auto simp: getAllFolders_def)
    qed
  qed
qed

lemma subfolder_search_no_match:
  assumes "shows_no_match graph folderName"
  shows "fst (subfolder_search graph tok folderName s) = None"
proof -
  obtain folders s' where g: "getAllFolders graph tok s = (folders, s')" by fastforce
  from find_folder_none[OF getAllFolders_no_match[OF assms g]] g
  show ?thesis by (simp add: subfolder_search_def)
qed

lemma getFolderIdByName_no_match:
  assumes "shows_no_match graph folderName"
  shows "fst (getFolderIdByName graph tok folderName s) = None"
proof -
  let ?req1 = "\<lparr>gr_accessToken = tok, gr_apiPath = ''me/mailFolders'',
                gr_queryParams = no_params\<lparr>filter_param :=
                  Some (''displayName eq '' @ [sq] @ folderName @ [sq])\<rparr>\<rparr>"
  let ?req2 = "\<lparr>gr_accessToken = tok, gr_apiPath = ''me/mailFolders'',
                gr_queryParams = no_params\<lparr>top_param := Some 100\<rparr>\<rparr>"
  obtain out1 s1 where c1: "callGraphAPI graph ?req1 s = (out1, s1)" by fastforce
  obtain out2 s2 where c2: "callGraphAPI graph ?req2 s1 = (out2, s2)" by fastforce
  have e1: "v = []" if "out1 = Inr (Some v)" for v
    using no_match_exact[OF assms, of ?req1 s v s1] c1 that by simp
  have e2: "find_folder (toLowerCase folderName) v = None" if "out2 = Inr (Some v)" for v
    using find_folder_none[OF no_match_listing[OF assms, of ?req2 s1 v s2]] c2 that by simp
  show ?thesis
    using c1 c2 e1 e2 subfolder_search_no_match[OF assms]
    by (auto simp: getFolderIdByName_def split: sum.splits option.splits list.splits)
qed

text \<open>
  The contract of the resolver: an absent or empty name gives the inbox; a name whose
  lower-casing is an alias gives the alias's endpoint; both without a remote call. A name
  that is no alias and no member of \<^verbatim>\<open>Object.prototype\<close>, against a remote side
  that shows no match for it, is rejected with the message that points to
  \<^verbatim>\<open>list-folders\<close>.
\<close>

lemma resolveFolderPath_contract:
  "\<not> truthy folderName \<Longrightarrow>
     resolveFolderPath graph tok folderName w =
       (Inr (JString ''me/mailFolders/inbox/messages''), \<lparr>calls = [], remote = w\<rparr>)"
  "map_of WELL_KNOWN_FOLDERS (toLowerCase name) = Some path \<Longrightarrow>
     resolveFolderPath graph tok (Some name) w =
       (Inr (JString path), \<lparr>calls = [], remote = w\<rparr>)"
  "name \<noteq> [] \<Longrightarrow> map_of WELL_KNOWN_FOLDERS (toLowerCase name) = None \<Longrightarrow>
   toLowerCase name \<notin> set Object_prototype \<Longrightarrow> shows_no_match graph name \<Longrightarrow>
     fst (resolveFolderPath graph tok (Some name) w) = Inl (Error (not_found_message name))"
proof -
  show "resolveFolderPath graph tok folderName w =
       (Inr (JString ''me/mailFolders/inbox/messages''), \<lparr>calls = [], remote = w\<rparr>)"
    if "\<not> truthy folderName"
    using that
    by (auto simp: resolveFolderPath_def truthy_def get_property_def WELL_KNOWN_FOLDERS_def
             split: option.splits)
next
  assume a: "map_of WELL_KNOWN_FOLDERS (toLowerCase name) = Some path"
  then have ne: "name \<noteq> []"
    by (auto simp: WELL_KNOWN_FOLDERS_def toLowerCase_def)
  have "path \<noteq> []" using a by (auto simp: WELL_KNOWN_FOLDERS_def split: if_splits)
  with a ne show "resolveFolderPath graph tok (Some name) w =
       (Inr (JString path), \<lparr>calls = [], remote = w\<rparr>)"
    by (simp add: resolveFolderPath_def get_property_def)
next
  assume a: "name \<noteq> []" "map_of WELL_KNOWN_FOLDERS (toLowerCase name) = None"
    "toLowerCase name \<notin> set Object_prototype" "shows_no_match graph name"
  from getFolderIdByName_no_match[OF a(4), of tok "\<lparr>calls = [], remote = w\<rparr>"] a(1,2,3)
  show "fst (resolveFolderPath graph tok (Some name) w) = Inl (Error (not_found_message name))"
    by (auto simp: resolveFolderPath_def get_property_def split: prod.splits option.splits)
qed

lemma resolveFolderPath_Inbox:
  "resolveFolderPath graph tok (Some ''Inbox'') w =
     (Inr (JString ''me/mailFolders/inbox/messages''), \<lparr>calls = [], remote = w\<rparr>)"
proof -
  have "map_of WELL_KNOWN_FOLDERS (toLowerCase ''Inbox'') = Some ''me/mailFolders/inbox/messages''"
    by code_simp
  then show ?thesis by (rule resolveFolderPath_contract(2))
qed

text \<open>
  Claim C9 fails on the code for the name \<^verbatim>\<open>constructor\<close> (and, alike, for
  \<^verbatim>\<open>__proto__\<close>): it is no alias, yet reading it from
  \<^const>\<open>WELL_KNOWN_FOLDERS\<close> yields the inherited member, which the condition takes
  for true. The resolver returns that member at once, without any remote call, where the
  claim has it search the folder tree and fail when nothing matches.
\<close>

theorem resolveFolderPath_inherited_key:
  "resolveFolderPath graph accessToken (Some ''constructor'') w =
     (Inr (JInherited ''constructor''), \<lparr>calls = [], remote = w\<rparr>)"
proof -
  have "get_property WELL_KNOWN_FOLDERS (toLowerCase ''constructor'') = JInherited ''constructor''"
    by code_simp
  then show ?thesis by (simp add: resolveFolderPath_def)
qed

lemma empty_mailbox_no_match: "shows_no_match empty_mailbox name"
  by (simp add: shows_no_match_def empty_mailbox_def)

lemma resolveFolderPath_missing:
  "fst (resolveFolderPath empty_mailbox ''token'' (Some ''Invoices'') ()) =
     Inl (Error (''Folder '' @ [dq] @ ''Invoices'' @ [dq] @
                 '' not found. Use list-folders to see available folders.''))"
proof -
  have a: "map_of WELL_KNOWN_FOLDERS (toLowerCase ''Invoices'') = None" by code_simp
  have b: "toLowerCase ''Invoices'' \<notin> set Object_prototype" by code_simp
  from resolveFolderPath_contract(3)[OF _ a b empty_mailbox_no_match, of "''token''" "()"]
  show ?thesis by (simp add: not_found_message_def)
qed

end
